theory Spec2Isabelle
  imports Main "HOL-Library.Sublist" "HOL-Library.Char_ord" "HOL-Library.List_Lexorder"
begin

section \<open>Strings\<close>

text \<open>
  A Go \<^verbatim>\<open>string\<close> or \<^verbatim>\<open>[]byte\<close> is a list of bytes, here a \<^typ>\<open>string\<close>.
  The functions of package \<^verbatim>\<open>strings\<close> that \<^verbatim>\<open>main.go\<close> calls are written out.
\<close>

abbreviation nl :: char where
  "nl \<equiv> CHR 0x0A"

text \<open>\<^verbatim>\<open>strings.HasPrefix(s, pre)\<close> is \<^term>\<open>prefix pre s\<close>.\<close>

definition TrimPrefix :: "string \<Rightarrow> string \<Rightarrow> string" where
  "TrimPrefix s pre = (if prefix pre s then drop (length pre) s else s)"

text \<open>
  \<^verbatim>\<open>strings.Split(s, sep)\<close> for a non-empty separator: the pieces between the
  non-overlapping occurrences of \<open>sep\<close>, found from the left. The program calls it
  with the separators \<^verbatim>\<open>"\n"\<close> and \<^verbatim>\<open>"\n\n"\<close> only.
\<close>

function Split :: "string \<Rightarrow> string \<Rightarrow> string list" where
  "Split [] sep = [[]]"
| "Split (c # cs) sep =
     (if sep \<noteq> [] \<and> prefix sep (c # cs) then [] # Split (drop (length sep) (c # cs)) sep
      else (case Split cs sep of [] \<Rightarrow> [[c]] | x # xs \<Rightarrow> (c # x) # xs))"
  by pat_completeness auto
termination
  by (relation "measure (\<lambda>(s, sep). length s)") (auto simp: neq_Nil_conv)

text \<open>
  \<^verbatim>\<open>strings.TrimSpace\<close> removes the white space of Unicode at both ends of a string
  that it reads as UTF-8. Go decodes a white-space character exactly from the bytes of
  its encoding (an overlong or broken encoding decodes to the replacement character,
  which is no white space), forwards at the front and backwards at the end; the
  encodings begin with a byte that continues no other character. So the function
  strips, while there is one, an encoding of \<open>whiteSpace\<close> at the front, and then, while
  there is one, an encoding at the end. The list has the characters of
  \<^verbatim>\<open>unicode.IsSpace\<close>: U+0009 to U+000D, U+0020, U+0085, U+00A0, U+1680, U+2000 to
  U+200A, U+2028, U+2029, U+202F, U+205F and U+3000.
\<close>

definition whiteSpace :: "string list" where
  "whiteSpace =
     [[CHR 0x09], [CHR 0x0A], [CHR 0x0B], [CHR 0x0C], [CHR 0x0D], [CHR 0x20],
      [CHR 0xC2, CHR 0x85], [CHR 0xC2, CHR 0xA0],
      [CHR 0xE1, CHR 0x9A, CHR 0x80],
      [CHR 0xE2, CHR 0x80, CHR 0x80], [CHR 0xE2, CHR 0x80, CHR 0x81], [CHR 0xE2, CHR 0x80, CHR 0x82],
      [CHR 0xE2, CHR 0x80, CHR 0x83], [CHR 0xE2, CHR 0x80, CHR 0x84], [CHR 0xE2, CHR 0x80, CHR 0x85],
      [CHR 0xE2, CHR 0x80, CHR 0x86], [CHR 0xE2, CHR 0x80, CHR 0x87], [CHR 0xE2, CHR 0x80, CHR 0x88],
      [CHR 0xE2, CHR 0x80, CHR 0x89], [CHR 0xE2, CHR 0x80, CHR 0x8A],
      [CHR 0xE2, CHR 0x80, CHR 0xA8], [CHR 0xE2, CHR 0x80, CHR 0xA9], [CHR 0xE2, CHR 0x80, CHR 0xAF],
      [CHR 0xE2, CHR 0x81, CHR 0x9F],
      [CHR 0xE3, CHR 0x80, CHR 0x80]]"

text \<open>The number of bytes of the white-space character at the front, 0 if there is none.\<close>

definition leadingSpace :: "string \<Rightarrow> nat" where
  "leadingSpace s = (case find (\<lambda>w. prefix w s) whiteSpace of None \<Rightarrow> 0 | Some w \<Rightarrow> length w)"

definition trailingSpace :: "string \<Rightarrow> nat" where
  "trailingSpace s = (case find (\<lambda>w. suffix w s) whiteSpace of None \<Rightarrow> 0 | Some w \<Rightarrow> length w)"

function TrimLeftSpace :: "string \<Rightarrow> string" where
  "TrimLeftSpace s = (if leadingSpace s = 0 then s else TrimLeftSpace (drop (leadingSpace s) s))"
  by pat_completeness auto
termination
proof (relation "measure length")
  show "wf (measure length)"
    by simp
  fix s :: string
  assume a: "leadingSpace s \<noteq> 0"
  have "leadingSpace [] = 0"
    by (simp add: leadingSpace_def whiteSpace_def)
  then have "s \<noteq> []"
    using a by auto
  then show "(drop (leadingSpace s) s, s) \<in> measure length"
    using a by simp
qed

declare TrimLeftSpace.simps [simp del]

function TrimRightSpace :: "string \<Rightarrow> string" where
  "TrimRightSpace s =
     (if trailingSpace s = 0 then s else TrimRightSpace (take (length s - trailingSpace s) s))"
  by pat_completeness auto
termination
proof (relation "measure length")
  show "wf (measure length)"
    by simp
  fix s :: string
  assume a: "trailingSpace s \<noteq> 0"
  have "trailingSpace [] = 0"
    by (simp add: trailingSpace_def whiteSpace_def)
  then have "s \<noteq> []"
    using a by auto
  then show "(take (length s - trailingSpace s) s, s) \<in> measure length"
    using a by simp
qed

declare TrimRightSpace.simps [simp del]

definition TrimSpace :: "string \<Rightarrow> string" where
  "TrimSpace s = TrimRightSpace (TrimLeftSpace s)"

text \<open>\<^verbatim>\<open>strings.Join(elems, sep)\<close>.\<close>

fun JoinWith :: "string list \<Rightarrow> string \<Rightarrow> string" where
  "JoinWith [] sep = []"
| "JoinWith [x] sep = x"
| "JoinWith (x # y # ys) sep = x @ sep @ JoinWith (y # ys) sep"

text \<open>\<^verbatim>\<open>fmt.Sprintf("%d", n)\<close> for an integer.\<close>

definition digit :: "nat \<Rightarrow> char" where
  "digit n = ''0123456789abcdef'' ! n"

fun decimal :: "nat \<Rightarrow> string" where
  "decimal n = (if n < 10 then [digit n] else decimal (n div 10) @ [digit (n mod 10)])"

declare decimal.simps [simp del]

definition Sprintf_d :: "int \<Rightarrow> string" where
  "Sprintf_d i = (if i < 0 then CHR ''-'' # decimal (nat (- i)) else decimal (nat i))"

text \<open>\<^verbatim>\<open>fmt.Sprintf("%x", bytes)\<close>: two lower-case hexadecimal digits for each byte.\<close>

definition hex_byte :: "char \<Rightarrow> string" where
  "hex_byte c = [digit (of_char c div 16), digit (of_char c mod 16)]"

definition Sprintf_x :: "string \<Rightarrow> string" where
  "Sprintf_x bs = concat (map hex_byte bs)"

section \<open>The file system\<close>

text \<open>
  The program keeps all its state in files, so the state of the model is a file
  system: an association list from paths to nodes, the first binding of a path being
  the current one. A path is the list of its components below the working directory,
  which is the empty list and always a directory; a rooted path has the component
  \<^verbatim>\<open>/\<close> at its front. There are no links. The program never removes a file, so
  neither does the model.
\<close>

datatype node = File string | Dir

type_synonym path = "string list"

type_synonym filesystem = "(path \<times> node) list"

datatype errno = ENOENT | ENOTDIR | EISDIR | EEXIST

definition at :: "filesystem \<Rightarrow> path \<Rightarrow> node option" where
  "at fs k = (if k = [] then Some Dir else map_of fs k)"

text \<open>
  The components of a path without the empty ones and \<^verbatim>\<open>.\<close>, each \<^verbatim>\<open>..\<close> taking away
  the component before it: what \<^verbatim>\<open>filepath.Clean\<close> computes, and the path that the
  system reaches when it can follow the path as written. The stack of \<open>norm\<close> has the
  last component first.
\<close>

fun norm :: "path \<Rightarrow> string list \<Rightarrow> path" where
  "norm st [] = st"
| "norm st (c # cs) =
     (if c = [] \<or> c = ''.'' then norm st cs
      else if c = ''..'' then
        (case st of
           [] \<Rightarrow> norm [''..''] cs
         | t # ts \<Rightarrow>
             if t = ''..'' then norm (''..'' # st) cs
             else if t = ''/'' then norm st cs
             else norm ts cs)
      else norm (c # st) cs)"

definition resolve :: "string \<Rightarrow> path" where
  "resolve p = rev (norm (if prefix ''/'' p then [''/''] else []) (Split p ''/''))"

text \<open>
  \<^verbatim>\<open>filepath.Clean\<close>: the shortest path that names the same place by its text alone;
  \<^verbatim>\<open>.\<close> for the empty result.
\<close>

definition Clean :: "string \<Rightarrow> string" where
  "Clean p =
     (if prefix ''/'' p then ''/'' @ JoinWith (tl (resolve p)) ''/''
      else if resolve p = [] then ''.''
      else JoinWith (resolve p) ''/'')"

text \<open>
  \<^verbatim>\<open>filepath.Join\<close>: the non-empty elements joined by \<^verbatim>\<open>/\<close> and cleaned; the empty
  string when there is no such element.
\<close>

definition Join :: "string list \<Rightarrow> string" where
  "Join elems =
     (if filter (\<lambda>e. e \<noteq> []) elems = [] then []
      else Clean (JoinWith (filter (\<lambda>e. e \<noteq> []) elems) ''/''))"

text \<open>
  How the system follows a path that the program hands to it as written: component
  by component from the working directory (or the root), and every place it passes
  through must be a directory, also before an empty component, \<^verbatim>\<open>.\<close> or \<^verbatim>\<open>..\<close>. So
  \<^verbatim>\<open>a.txt/\<close> fails when \<^verbatim>\<open>a.txt\<close> is a file, and \<^verbatim>\<open>nodir/../a.txt\<close> fails when \<^verbatim>\<open>nodir\<close> is
  missing. The place reached need not exist, unless the last step was \<^verbatim>\<open>..\<close>. The
  directory above the working directory is the path of the one component \<^verbatim>\<open>..\<close>, and
  it is there when the file system lists it.
\<close>

definition parent :: "path \<Rightarrow> path" where
  "parent k =
     (case rev k of
        [] \<Rightarrow> [''..'']
      | t # ts \<Rightarrow> if t = ''..'' then k @ [''..''] else if t = ''/'' then k else butlast k)"

fun walk :: "filesystem \<Rightarrow> path \<Rightarrow> string list \<Rightarrow> errno + path" where
  "walk fs cur [] = Inr cur"
| "walk fs cur (c # cs) =
     (case at fs cur of
        None \<Rightarrow> Inl ENOENT
      | Some (File d) \<Rightarrow> Inl ENOTDIR
      | Some Dir \<Rightarrow>
          if c = [] \<or> c = ''.'' then walk fs cur cs
          else if c = ''..'' then
            (case at fs (parent cur) of
               None \<Rightarrow> Inl ENOENT
             | Some (File d) \<Rightarrow> Inl ENOTDIR
             | Some Dir \<Rightarrow> walk fs (parent cur) cs)
          else walk fs (cur @ [c]) cs)"

definition locate :: "filesystem \<Rightarrow> string \<Rightarrow> errno + path" where
  "locate fs p =
     (if p = [] then Inl ENOENT
      else walk fs (if prefix ''/'' p then [''/''] else []) (Split p ''/''))"

text \<open>\<^verbatim>\<open>os.Stat\<close>, and \<^verbatim>\<open>os.Open\<close> for reading, which opens directories as well.\<close>

definition Stat :: "filesystem \<Rightarrow> string \<Rightarrow> errno + node" where
  "Stat fs p =
     (case locate fs p of
        Inl e \<Rightarrow> Inl e
      | Inr k \<Rightarrow> (case at fs k of None \<Rightarrow> Inl ENOENT | Some n \<Rightarrow> Inr n))"

text \<open>\<^verbatim>\<open>os.IsNotExist(err)\<close> for the error of a call, \<open>nil\<close> included.\<close>

definition IsNotExist :: "errno + 'a \<Rightarrow> bool" where
  "IsNotExist r = (r = Inl ENOENT)"

text \<open>\<^verbatim>\<open>os.ReadFile\<close>.\<close>

definition ReadFile :: "filesystem \<Rightarrow> string \<Rightarrow> errno + string" where
  "ReadFile fs p =
     (case Stat fs p of
        Inl e \<Rightarrow> Inl e
      | Inr (File c) \<Rightarrow> Inr c
      | Inr Dir \<Rightarrow> Inl EISDIR)"

text \<open>
  \<^verbatim>\<open>os.WriteFile\<close>, and \<^verbatim>\<open>os.Create\<close> when the data are empty: the file is created
  or truncated, in a directory that exists.
\<close>

definition WriteFile :: "filesystem \<Rightarrow> string \<Rightarrow> string \<Rightarrow> errno + filesystem" where
  "WriteFile fs p data =
     (case locate fs p of
        Inl e \<Rightarrow> Inl e
      | Inr k \<Rightarrow>
          (case at fs k of
             Some Dir \<Rightarrow> Inl EISDIR
           | _ \<Rightarrow> Inr ((k, File data) # fs)))"

text \<open>
  \<^verbatim>\<open>os.OpenFile\<close> with \<^verbatim>\<open>O_APPEND|O_CREATE|O_WRONLY\<close> and one \<open>WriteString\<close>:
  the data go behind what the file holds, and the file is made when it is missing.
\<close>

definition AppendFile :: "filesystem \<Rightarrow> string \<Rightarrow> string \<Rightarrow> errno + filesystem" where
  "AppendFile fs p data =
     (case locate fs p of
        Inl e \<Rightarrow> Inl e
      | Inr k \<Rightarrow>
          (case at fs k of
             Some Dir \<Rightarrow> Inl EISDIR
           | Some (File c) \<Rightarrow> Inr ((k, File (c @ data)) # fs)
           | None \<Rightarrow> Inr ((k, File data) # fs)))"

text \<open>\<^verbatim>\<open>os.Mkdir\<close>; slashes at the end of the path do not count.\<close>

definition Mkdir :: "filesystem \<Rightarrow> string \<Rightarrow> errno + filesystem" where
  "Mkdir fs p =
     (if p = [] then Inl ENOENT
      else
        (case walk fs (if prefix ''/'' p then [''/''] else [])
                (rev (dropWhile (\<lambda>c. c = []) (rev (Split p ''/'')))) of
           Inl e \<Rightarrow> Inl e
         | Inr k \<Rightarrow>
             (case at fs k of
                Some n \<Rightarrow> Inl EEXIST
              | None \<Rightarrow> Inr ((k, Dir) # fs))))"

text \<open>
  \<^verbatim>\<open>os.MkdirAll\<close> for a path of plain names below the working directory, as the
  program calls it (with \<^verbatim>\<open>vcs/commits\<close>): every missing directory on the way is made,
  and the directories made before a failure stay.
\<close>

fun mkdirs :: "filesystem \<Rightarrow> path \<Rightarrow> string list \<Rightarrow> errno option \<times> filesystem" where
  "mkdirs fs pre [] = (None, fs)"
| "mkdirs fs pre (c # cs) =
     (case at fs (pre @ [c]) of
        Some Dir \<Rightarrow> mkdirs fs (pre @ [c]) cs
      | Some (File d) \<Rightarrow> (Some ENOTDIR, fs)
      | None \<Rightarrow> mkdirs ((pre @ [c], Dir) # fs) (pre @ [c]) cs)"

definition MkdirAll :: "filesystem \<Rightarrow> string \<Rightarrow> errno option \<times> filesystem" where
  "MkdirAll fs p = mkdirs fs [] (Split p ''/'')"

text \<open>\<^verbatim>\<open>os.ReadDir\<close>: the names of the entries of a directory, sorted.\<close>

definition entries :: "filesystem \<Rightarrow> path \<Rightarrow> string list" where
  "entries fs d = sort (remdups (map (\<lambda>(k, n). last k) (filter (\<lambda>(k, n). k \<noteq> [] \<and> butlast k = d) fs)))"

definition ReadDir :: "filesystem \<Rightarrow> string \<Rightarrow> errno + string list" where
  "ReadDir fs p =
     (case locate fs p of
        Inl e \<Rightarrow> Inl e
      | Inr k \<Rightarrow>
          (case at fs k of
             Some Dir \<Rightarrow> Inr (entries fs k)
           | Some (File c) \<Rightarrow> Inl ENOTDIR
           | None \<Rightarrow> Inl ENOENT))"

section \<open>The program\<close>

text \<open>
  A function of the program that may end the process with \<^verbatim>\<open>log.Fatal\<close> returns
  \<open>Fatal\<close> with the file system as the process leaves it, and \<open>Ret\<close> with its result
  and the file system otherwise.
\<close>

datatype 'a res = Ret 'a filesystem | Fatal filesystem

text \<open>The lines the program prints, one constructor for each \<^verbatim>\<open>fmt.Print\<close> of a handler.\<close>

datatype report =
    MessageWasNotPassed
  | NothingToCommit
  | ChangesAreCommitted
  | CommitIdWasNotPassed
  | CommitDoesNotExist
  | SwitchedToCommit string
  | CantFind string
  | AlreadyTracked string
  | IsTracked string
  | ErrorTrackingFile
  | TrackedFiles string
  | AddAFileToTheIndex
  | NoCommitsYet
  | TooManyArguments
  | ShowLog string

record Commit =
  HashID :: string
  Author :: string
  Message :: string

definition configPath :: string where
  "configPath = ''vcs/config.txt''"

definition indexFilePath :: string where
  "indexFilePath = ''vcs/index.txt''"

definition commitDir :: string where
  "commitDir = ''vcs/commits''"

definition logFilePath :: string where
  "logFilePath = ''vcs/log.txt''"

subsection \<open>Copying a file\<close>

text \<open>
  \<open>copyFile\<close> opens the source, creates (and so truncates) the destination, and only
  then reads the source and writes what it read. \<open>Sync\<close> changes nothing here.
\<close>

definition copyFile :: "filesystem \<Rightarrow> string \<Rightarrow> string \<Rightarrow> errno option \<times> filesystem" where
  "copyFile fs src dst =
     (case Stat fs src of
        Inl e \<Rightarrow> (Some e, fs)
      | Inr srcFile \<Rightarrow>
          (case WriteFile fs dst [] of
             Inl e \<Rightarrow> (Some e, fs)
           | Inr fs1 \<Rightarrow>
               (case ReadFile fs1 src of
                  Inl e \<Rightarrow> (Some e, fs1)
                | Inr content \<Rightarrow>
                    (case WriteFile fs1 dst content of
                       Inl e \<Rightarrow> (Some e, fs1)
                     | Inr fs2 \<Rightarrow> (None, fs2)))))"

subsection \<open>The log\<close>

definition newCommitInfo :: "Commit \<Rightarrow> string" where
  "newCommitInfo c =
     ''commit '' @ HashID c @ [nl] @ ''Author: '' @ Author c @ [nl] @ Message c @ [nl, nl]"

definition createLog :: "Commit \<Rightarrow> filesystem \<Rightarrow> unit res" where
  "createLog c fs =
     (let r = ReadFile fs logFilePath in
      if r \<noteq> Inl ENOENT \<and> isl r then Fatal fs
      else
        (let existingLogContent = (case r of Inr content \<Rightarrow> content | Inl e \<Rightarrow> []) in
         case WriteFile fs logFilePath (newCommitInfo c @ existingLogContent) of
           Inl e \<Rightarrow> Fatal fs
         | Inr fs' \<Rightarrow> Ret () fs'))"

text \<open>
  \<open>getLastCommitID\<close> makes \<^verbatim>\<open>vcs/commits\<close> when it is missing, then reads the first
  line of the log. \<open>Split\<close> never returns an empty list, so the first piece exists.
\<close>

definition getLastCommitID :: "filesystem \<Rightarrow> string \<times> filesystem" where
  "getLastCommitID fs =
     (let (err, fs1) = (if IsNotExist (Stat fs commitDir) then MkdirAll fs commitDir else (None, fs)) in
      if err \<noteq> None then ([], fs1)
      else
        (case ReadFile fs1 logFilePath of
           Inl e \<Rightarrow> ([], fs1)
         | Inr logContent \<Rightarrow> (TrimPrefix (hd (Split logContent [nl])) ''commit '', fs1)))"

text \<open>The inner loop of \<open>findCommitById\<close> over the lines of one entry.\<close>

fun entryFields :: "string list \<Rightarrow> string \<times> string \<Rightarrow> string \<times> string" where
  "entryFields [] (author, message) = (author, message)"
| "entryFields (line # lines) (author, message) =
     (if prefix ''Author: '' line then entryFields lines (TrimPrefix line ''Author: '', message)
      else if \<not> prefix ''commit '' line then entryFields lines (author, message @ line @ [nl])
      else entryFields lines (author, message))"

text \<open>The outer loop of \<open>findCommitById\<close> over the entries of the log.\<close>

fun findEntry :: "string \<Rightarrow> string list \<Rightarrow> Commit option" where
  "findEntry ident [] = None"
| "findEntry ident (entry # commitEntries) =
     (let lines = Split entry [nl];
          commitID = TrimPrefix (hd lines) ''commit ''
      in if commitID = ident then
           (let (author, message) = entryFields lines ([], []) in
            Some \<lparr>HashID = commitID, Author = author, Message = TrimSpace message\<rparr>)
         else findEntry ident commitEntries)"

definition findCommitById :: "filesystem \<Rightarrow> string \<Rightarrow> Commit option res" where
  "findCommitById fs ident =
     (if IsNotExist (Stat fs (Join [commitDir, ident])) then Ret None fs
      else
        (case ReadFile fs logFilePath of
           Inl e \<Rightarrow> Fatal fs
         | Inr logContent \<Rightarrow> Ret (findEntry ident (Split logContent [nl, nl])) fs))"

text \<open>\<open>readCommits\<close>, behind the command \<^verbatim>\<open>log\<close>.\<close>

definition readCommits :: "filesystem \<Rightarrow> report res" where
  "readCommits fs =
     (case ReadDir fs commitDir of
        Inl e \<Rightarrow> Ret NoCommitsYet fs
      | Inr ents \<Rightarrow>
          if length ents = 0 then Ret NoCommitsYet fs
          else
            (case ReadFile fs logFilePath of
               Inl e \<Rightarrow> Fatal fs
             | Inr logContent \<Rightarrow> Ret (ShowLog logContent) fs))"

definition handleLog :: "string list \<Rightarrow> filesystem \<Rightarrow> report res" where
  "handleLog args fs = (if length args > 0 then Ret TooManyArguments fs else readCommits fs)"

subsection \<open>Checkout\<close>

text \<open>The loop of \<open>switchCommit\<close> that copies the entries of the commit directory.\<close>

fun restoreFiles :: "string \<Rightarrow> string list \<Rightarrow> filesystem \<Rightarrow> unit res" where
  "restoreFiles commitDirPath [] fs = Ret () fs"
| "restoreFiles commitDirPath (name # names) fs =
     (case copyFile fs (Join [commitDirPath, name]) (Join [''.'', name]) of
        (Some e, fs') \<Rightarrow> Fatal fs'
      | (None, fs') \<Rightarrow> restoreFiles commitDirPath names fs')"

definition switchCommit :: "string \<Rightarrow> filesystem \<Rightarrow> report res" where
  "switchCommit commitID fs =
     (case findCommitById fs commitID of
        Fatal fs' \<Rightarrow> Fatal fs'
      | Ret None fs' \<Rightarrow> Ret CommitDoesNotExist fs'
      | Ret (Some commit) fs' \<Rightarrow>
          (case ReadDir fs' (Join [commitDir, commitID]) of
             Inl e \<Rightarrow> Fatal fs'
           | Inr commitFiles \<Rightarrow>
               (case restoreFiles (Join [commitDir, commitID]) commitFiles fs' of
                  Fatal fs'' \<Rightarrow> Fatal fs''
                | Ret u fs'' \<Rightarrow> Ret (SwitchedToCommit commitID) fs'')))"

definition handleCheckout :: "string list \<Rightarrow> filesystem \<Rightarrow> report res" where
  "handleCheckout args fs =
     (if length args \<noteq> 1 then Ret CommitIdWasNotPassed fs else switchCommit (hd args) fs)"

subsection \<open>The index\<close>

text \<open>
  \<open>isIndexEmpty\<close>: the index is missing or has size 0. The size of a directory is
  whatever the system says and is taken not to be 0.
\<close>

definition isIndexEmpty :: "filesystem \<Rightarrow> bool" where
  "isIndexEmpty fs =
     (case Stat fs indexFilePath of
        Inl e \<Rightarrow> True
      | Inr (File c) \<Rightarrow> length c = 0
      | Inr Dir \<Rightarrow> False)"

definition readIndex :: "filesystem \<Rightarrow> report" where
  "readIndex fs =
     (case ReadFile fs indexFilePath of
        Inl e \<Rightarrow> NoCommitsYet
      | Inr content \<Rightarrow> TrackedFiles content)"

definition isFileTracked :: "filesystem \<Rightarrow> string \<Rightarrow> bool res" where
  "isFileTracked fs filePath =
     (case ReadFile fs indexFilePath of
        Inl e \<Rightarrow> Fatal fs
      | Inr indexContent \<Rightarrow> Ret (filePath \<in> set (Split indexContent [nl])) fs)"

definition createIndex :: "filesystem \<Rightarrow> string \<Rightarrow> errno option \<times> filesystem" where
  "createIndex fs addedFile =
     (case AppendFile fs indexFilePath (addedFile @ [nl]) of
        Inl e \<Rightarrow> (Some e, fs)
      | Inr fs' \<Rightarrow> (None, fs'))"

definition setupAdd :: "string \<Rightarrow> filesystem \<Rightarrow> report res" where
  "setupAdd file fs =
     (if file = [] \<and> \<not> isIndexEmpty fs then Ret (readIndex fs) fs
      else if file = [] \<and> isIndexEmpty fs then Ret AddAFileToTheIndex fs
      else if IsNotExist (Stat fs file) then Ret (CantFind file) fs
      else
        (case isFileTracked fs file of
           Fatal fs' \<Rightarrow> Fatal fs'
         | Ret True fs' \<Rightarrow> Ret (AlreadyTracked file) fs'
         | Ret False fs' \<Rightarrow>
             (case createIndex fs' file of
                (Some e, fs'') \<Rightarrow> Ret ErrorTrackingFile fs''
              | (None, fs'') \<Rightarrow> Ret (IsTracked file) fs'')))"

definition handleAdd :: "string list \<Rightarrow> filesystem \<Rightarrow> report res" where
  "handleAdd args fs =
     (case (if IsNotExist (Stat fs indexFilePath) then WriteFile fs indexFilePath [] else Inr fs) of
        Inl e \<Rightarrow> Fatal fs
      | Inr fs1 \<Rightarrow>
          (case ReadFile fs1 indexFilePath of
             Inl e \<Rightarrow> Fatal fs1
           | Inr content \<Rightarrow>
               if length args > 0 then setupAdd (hd args) fs1
               else if length content \<noteq> 0 then Ret (TrackedFiles content) fs1
               else Ret AddAFileToTheIndex fs1))"

subsection \<open>Commits\<close>

text \<open>
  \<open>hashContent\<close> renders the SHA-256 digest of the content in hexadecimal. The digest
  function is the one of Go's \<^verbatim>\<open>crypto/sha256\<close>; it is the parameter \<open>H\<close> of every
  function that hashes, from the bytes hashed to the bytes of the digest.
\<close>

definition hashContent :: "(string \<Rightarrow> string) \<Rightarrow> string \<Rightarrow> string" where
  "hashContent H content = Sprintf_x (H content)"

datatype error = PathError errno | NothingToCommitError

text \<open>
  \<open>createId\<close>; the value of \<^verbatim>\<open>time.Now().UnixNano()\<close> is the parameter \<open>now\<close>.
\<close>

definition createId :: "Commit \<Rightarrow> (string \<Rightarrow> string) \<Rightarrow> int \<Rightarrow> filesystem \<Rightarrow> error + string" where
  "createId c H now fs =
     (case ReadFile fs indexFilePath of
        Inl e \<Rightarrow> Inl (PathError e)
      | Inr indexContent \<Rightarrow>
          if length indexContent = 0 then Inl NothingToCommitError
          else Inr (hashContent H (indexContent @ Sprintf_d now)))"

definition createCommitDir :: "Commit \<Rightarrow> filesystem \<Rightarrow> (errno + string) \<times> filesystem" where
  "createCommitDir c fs =
     (let commitDirPath = commitDir @ ''/'' @ HashID c in
      if IsNotExist (Stat fs commitDirPath) then
        (case Mkdir fs commitDirPath of
           Inl e \<Rightarrow> (Inl e, fs)
         | Inr fs' \<Rightarrow> (Inr commitDirPath, fs'))
      else (Inr commitDirPath, fs))"

definition getMessageFromArgs :: "string list \<Rightarrow> string" where
  "getMessageFromArgs args = TrimSpace (JoinWith args '' '')"

definition readConfig :: "filesystem \<Rightarrow> string res" where
  "readConfig fs =
     (case ReadFile fs configPath of
        Inl e \<Rightarrow> Fatal fs
      | Inr content \<Rightarrow> Ret content fs)"

definition createCommit :: "string \<Rightarrow> filesystem \<Rightarrow> Commit res" where
  "createCommit message fs =
     (case Stat fs indexFilePath of
        Inl e \<Rightarrow> Fatal fs
      | Inr indexFile \<Rightarrow>
          (case readConfig fs of
             Fatal fs' \<Rightarrow> Fatal fs'
           | Ret author fs' \<Rightarrow> Ret \<lparr>HashID = [], Author = author, Message = message\<rparr> fs'))"

definition fileHasChanges :: "(string \<Rightarrow> string) \<Rightarrow> string \<Rightarrow> string \<Rightarrow> filesystem \<Rightarrow> bool res" where
  "fileHasChanges H filePath commitDirPath fs =
     (let relativePath = TrimPrefix filePath commitDir;
          lastCommitFile = Join [commitDir, commitDirPath, relativePath]
      in if \<not> isl (Stat fs lastCommitFile) then
           (case ReadFile fs lastCommitFile of
              Inl e \<Rightarrow> Fatal fs
            | Inr lastCommitFileContent \<Rightarrow>
                (case ReadFile fs filePath of
                   Inl e \<Rightarrow> Fatal fs
                 | Inr fileContent \<Rightarrow>
                     Ret (hashContent H lastCommitFileContent \<noteq> hashContent H fileContent) fs))
         else Ret True fs)"

fun hasChanges :: "(string \<Rightarrow> string) \<Rightarrow> string list \<Rightarrow> string \<Rightarrow> filesystem \<Rightarrow> bool res" where
  "hasChanges H [] commitDirPath fs = Ret False fs"
| "hasChanges H (filePath # filePaths) commitDirPath fs =
     (if filePath = [] then hasChanges H filePaths commitDirPath fs
      else
        (case fileHasChanges H filePath commitDirPath fs of
           Fatal fs' \<Rightarrow> Fatal fs'
         | Ret True fs' \<Rightarrow> Ret True fs'
         | Ret False fs' \<Rightarrow> hasChanges H filePaths commitDirPath fs'))"

definition compareWithLastCommit :: "(string \<Rightarrow> string) \<Rightarrow> filesystem \<Rightarrow> bool res" where
  "compareWithLastCommit H fs =
     (let (lastCommitID, fs1) = getLastCommitID fs in
      if lastCommitID = [] then Ret True fs1
      else
        (case ReadFile fs1 indexFilePath of
           Inl e \<Rightarrow> Fatal fs1
         | Inr indexContent \<Rightarrow> hasChanges H (Split indexContent [nl]) lastCommitID fs1))"

text \<open>
  The loop of \<open>copyFilesToCommitDir\<close> over the lines of the index, and the
  \<open>destination\<close> it computes for each of them.
\<close>

definition destination :: "string \<Rightarrow> string \<Rightarrow> string" where
  "destination commitDirPath filePath = Join [commitDirPath, TrimPrefix filePath ''vcs/'']"

fun copyEach :: "string \<Rightarrow> string list \<Rightarrow> filesystem \<Rightarrow> unit res" where
  "copyEach commitDirPath [] fs = Ret () fs"
| "copyEach commitDirPath (filePath # filePaths) fs =
     (if filePath = [] then copyEach commitDirPath filePaths fs
      else
        (case copyFile fs filePath (destination commitDirPath filePath) of
           (Some e, fs') \<Rightarrow> Fatal fs'
         | (None, fs') \<Rightarrow> copyEach commitDirPath filePaths fs'))"

definition copyFilesToCommitDir :: "string \<Rightarrow> filesystem \<Rightarrow> unit res" where
  "copyFilesToCommitDir commitDirPath fs =
     (case (if IsNotExist (Stat fs commitDir) then MkdirAll fs commitDir else (None, fs)) of
        (Some e, fs1) \<Rightarrow> Fatal fs1
      | (None, fs1) \<Rightarrow>
          (case ReadFile fs1 indexFilePath of
             Inl e \<Rightarrow> Fatal fs1
           | Inr indexContent \<Rightarrow> copyEach commitDirPath (Split indexContent [nl]) fs1))"

definition handleCommit :: "(string \<Rightarrow> string) \<Rightarrow> int \<Rightarrow> string list \<Rightarrow> filesystem \<Rightarrow> report res" where
  "handleCommit H now args fs =
     (let message = getMessageFromArgs args in
      if message = [] then Ret MessageWasNotPassed fs
      else if isIndexEmpty fs then Ret NothingToCommit fs
      else
        (case compareWithLastCommit H fs of
           Fatal fs1 \<Rightarrow> Fatal fs1
         | Ret changes fs1 \<Rightarrow>
             if \<not> changes then Ret NothingToCommit fs1
             else
               (case createCommit message fs1 of
                  Fatal fs2 \<Rightarrow> Fatal fs2
                | Ret newCommit fs2 \<Rightarrow>
                    (case createId newCommit H now fs2 of
                       Inl e \<Rightarrow> Fatal fs2
                     | Inr commitID \<Rightarrow>
                         (case createCommitDir (newCommit\<lparr>HashID := commitID\<rparr>) fs2 of
                            (Inl e, fs3) \<Rightarrow> Fatal fs3
                          | (Inr commitDirPath, fs3) \<Rightarrow>
                              (case copyFilesToCommitDir commitDirPath fs3 of
                                 Fatal fs4 \<Rightarrow> Fatal fs4
                               | Ret u fs4 \<Rightarrow>
                                   (case createLog (newCommit\<lparr>HashID := commitID\<rparr>) fs4 of
                                      Fatal fs5 \<Rightarrow> Fatal fs5
                                    | Ret u' fs5 \<Rightarrow> Ret ChangesAreCommitted fs5)))))))"

section \<open>Notions for the properties\<close>

text \<open>
  A text that has no two line feeds in a row and does not end with one: the first
  empty line of a log then is the one that ends the entry.
\<close>

fun no_blank :: "string \<Rightarrow> bool" where
  "no_blank [] = True"
| "no_blank [c] = (c \<noteq> nl)"
| "no_blank (c # d # cs) = (\<not> (c = nl \<and> d = nl) \<and> no_blank (d # cs))"

text \<open>The file system that a run leaves, whether it returned or ended the process.\<close>

definition state_of :: "'a res \<Rightarrow> filesystem" where
  "state_of r = (case r of Ret x fs \<Rightarrow> fs | Fatal fs \<Rightarrow> fs)"

text \<open>
  What \<open>createLog\<close> takes as the log so far: the content of \<^verbatim>\<open>vcs/log.txt\<close>, nothing
  when the file is missing.
\<close>

definition existingLog :: "filesystem \<Rightarrow> string" where
  "existingLog fs = (case ReadFile fs logFilePath of Inr content \<Rightarrow> content | Inl e \<Rightarrow> [])"

text \<open>
  The name of a directory entry: not empty, not \<^verbatim>\<open>.\<close> or \<^verbatim>\<open>..\<close>, and without a slash.
\<close>

definition proper_name :: "string \<Rightarrow> bool" where
  "proper_name n = (n \<noteq> [] \<and> n \<noteq> ''.'' \<and> n \<noteq> ''..'' \<and> CHR ''/'' \<notin> set n)"

text \<open>
  The change detector, in the words of the specification. The counterpart of a staged
  path is the file that \<open>fileHasChanges\<close> looks for in the directory of the last
  commit. A path is changed when it has no counterpart, or when both can be read and
  their digests differ; it is identical when both can be read and hold the same
  bytes, and has the same digest when both can be read and their digests agree; and
  it cannot be compared when the counterpart exists but one of the two cannot be
  read.
\<close>

definition lastCommitFile :: "string \<Rightarrow> string \<Rightarrow> string" where
  "lastCommitFile filePath lastCommitID = Join [commitDir, lastCommitID, TrimPrefix filePath commitDir]"

definition changed :: "(string \<Rightarrow> string) \<Rightarrow> filesystem \<Rightarrow> string \<Rightarrow> string \<Rightarrow> bool" where
  "changed H fs lastCommitID filePath =
     (case Stat fs (lastCommitFile filePath lastCommitID) of
        Inl e \<Rightarrow> True
      | Inr n \<Rightarrow>
          (case (ReadFile fs (lastCommitFile filePath lastCommitID), ReadFile fs filePath) of
             (Inr stored, Inr current) \<Rightarrow> hashContent H stored \<noteq> hashContent H current
           | _ \<Rightarrow> False))"

definition identical :: "filesystem \<Rightarrow> string \<Rightarrow> string \<Rightarrow> bool" where
  "identical fs lastCommitID filePath =
     (case (ReadFile fs (lastCommitFile filePath lastCommitID), ReadFile fs filePath) of
        (Inr stored, Inr current) \<Rightarrow> stored = current
      | _ \<Rightarrow> False)"

definition sameDigest :: "(string \<Rightarrow> string) \<Rightarrow> filesystem \<Rightarrow> string \<Rightarrow> string \<Rightarrow> bool" where
  "sameDigest H fs lastCommitID filePath =
     (case (ReadFile fs (lastCommitFile filePath lastCommitID), ReadFile fs filePath) of
        (Inr stored, Inr current) \<Rightarrow> hashContent H stored = hashContent H current
      | _ \<Rightarrow> False)"

definition incomparable :: "filesystem \<Rightarrow> string \<Rightarrow> string \<Rightarrow> bool" where
  "incomparable fs lastCommitID filePath =
     (case Stat fs (lastCommitFile filePath lastCommitID) of
        Inl e \<Rightarrow> False
      | Inr n \<Rightarrow> isl (ReadFile fs (lastCommitFile filePath lastCommitID)) \<or> isl (ReadFile fs filePath))"

text \<open>The staged paths: the lines of the index that are not empty.\<close>

definition staged :: "string \<Rightarrow> string list" where
  "staged indexContent = filter (\<lambda>filePath. filePath \<noteq> []) (Split indexContent [nl])"

text \<open>
  A later state that differs from an earlier one by new directories only: every path
  is as it was, or was missing and is a directory now.
\<close>

definition dirs_added :: "filesystem \<Rightarrow> filesystem \<Rightarrow> bool" where
  "dirs_added fs fs' = (\<forall>k. at fs' k = at fs k \<or> (at fs k = None \<and> at fs' k = Some Dir))"

text \<open>
  An entry of the log matches an identifier when its first line is \<^verbatim>\<open>commit\<close>, a space
  and the identifier, or when its first line does not begin with \<^verbatim>\<open>commit\<close> and a
  space and is the identifier itself. An entry is a piece of the log between two
  empty lines; the text behind the last empty line is a piece too.
\<close>

definition entryMatches :: "string \<Rightarrow> string \<Rightarrow> bool" where
  "entryMatches ident entry =
     (let first = hd (Split entry [nl])
      in first = ''commit '' @ ident \<or> (first = ident \<and> \<not> prefix ''commit '' first))"

text \<open>A message without the line feeds at its end.\<close>

definition withoutFinalLineFeeds :: "string \<Rightarrow> string" where
  "withoutFinalLineFeeds s = rev (dropWhile (\<lambda>c. c = nl) (rev s))"

text \<open>
  Reading numbers back: the value of a digit is its place among the sixteen digits,
  a decimal numeral is read from the left, a minus sign in front negates, and two
  hexadecimal digits make a byte.
\<close>

definition digitValue :: "char \<Rightarrow> nat" where
  "digitValue c = length (takeWhile (\<lambda>d. d \<noteq> c) ''0123456789abcdef'')"

definition decimalValue :: "string \<Rightarrow> nat" where
  "decimalValue s = foldl (\<lambda>n c. 10 * n + digitValue c) 0 s"

definition readInt :: "string \<Rightarrow> int" where
  "readInt s =
     (case s of
        [] \<Rightarrow> 0
      | c # cs \<Rightarrow> if c = CHR ''-'' then - int (decimalValue cs) else int (decimalValue s))"

fun fromHex :: "string \<Rightarrow> string" where
  "fromHex (h # l # cs) = char_of (16 * digitValue h + digitValue l) # fromHex cs"
| "fromHex cs = []"

section \<open>Example states\<close>

text \<open>
  A commit directory \<^verbatim>\<open>vcs/commits/abc\<close> whose commit is not in the log, and a log
  with the entry of a commit \<^verbatim>\<open>abc\<close> whose directory is missing.
\<close>

definition fs_dir_without_entry :: filesystem where
  "fs_dir_without_entry =
     [([''vcs''], Dir), ([''vcs'', ''commits''], Dir), ([''vcs'', ''commits'', ''abc''], Dir),
      ([''vcs'', ''commits'', ''abc'', ''a.txt''], File ''hello''),
      ([''vcs'', ''log.txt''],
       File (''commit def'' @ [nl] @ ''Author: al'' @ [nl] @ ''first'' @ [nl, nl]))]"

definition fs_entry_without_dir :: filesystem where
  "fs_entry_without_dir =
     [([''vcs''], Dir), ([''vcs'', ''commits''], Dir),
      ([''vcs'', ''log.txt''],
       File (''commit abc'' @ [nl] @ ''Author: al'' @ [nl] @ ''first'' @ [nl, nl]))]"

text \<open>
  Two commits logged one after the other, in a state that has a commit directory.
\<close>

definition commit_first :: Commit where
  "commit_first = \<lparr>HashID = ''aa01'', Author = ''al'', Message = ''first''\<rparr>"

definition commit_second :: Commit where
  "commit_second = \<lparr>HashID = ''bb02'', Author = ''al'', Message = ''second''\<rparr>"

definition fs_logged_first :: filesystem where
  "fs_logged_first = state_of (createLog commit_first fs_dir_without_entry)"

definition fs_logged_second :: filesystem where
  "fs_logged_second = state_of (createLog commit_second fs_logged_first)"

text \<open>A commit of \<^verbatim>\<open>abc\<close> whose message has an empty line between two lines.\<close>

definition commit_blank_line :: Commit where
  "commit_blank_line = \<lparr>HashID = ''abc'', Author = ''al'', Message = ''a'' @ [nl, nl] @ ''b''\<rparr>"

definition fs_logged_blank_line :: filesystem where
  "fs_logged_blank_line = state_of (createLog commit_blank_line fs_dir_without_entry)"

definition commit_abc :: Commit where
  "commit_abc = \<lparr>HashID = ''abc'', Author = ''al'', Message = ''fix a''\<rparr>"

definition fs_logged_abc :: filesystem where
  "fs_logged_abc = state_of (createLog commit_abc fs_dir_without_entry)"

text \<open>
  A stand-in for the digest in the examples: 32 bytes, the first bytes of the content
  and zeros behind them.
\<close>

definition toy_digest :: "string \<Rightarrow> string" where
  "toy_digest s = take 32 (s @ replicate 32 (CHR 0x00))"

text \<open>A fresh repository: the directory \<^verbatim>\<open>vcs\<close>, a user name and one file.\<close>

definition fs_fresh :: filesystem where
  "fs_fresh = [([''vcs''], Dir), ([''vcs'', ''config.txt''], File ''al''), ([''a.txt''], File ''hello'')]"

definition fs_staged_a :: filesystem where
  "fs_staged_a = state_of (handleAdd [''a.txt''] fs_fresh)"

text \<open>A working tree with a file whose name has a line feed in it.\<close>

definition name_with_nl :: string where
  "name_with_nl = ''a'' @ [nl] @ ''b''"

definition fs_name_with_nl :: filesystem where
  "fs_name_with_nl = [([''vcs''], Dir), ([name_with_nl], File ''x'')]"

definition fs_staged_nl :: filesystem where
  "fs_staged_nl = state_of (handleAdd [name_with_nl] fs_name_with_nl)"

definition fs_staged_nl_twice :: filesystem where
  "fs_staged_nl_twice = state_of (handleAdd [name_with_nl] fs_staged_nl)"

definition fs_indexed :: filesystem where
  "fs_indexed = state_of (handleAdd [] fs_fresh)"

text \<open>
  The commit \<^verbatim>\<open>abc\<close> logged, \<^verbatim>\<open>a.txt\<close> edited since and \<^verbatim>\<open>b.txt\<close> never staged.
\<close>

definition fs_edited :: filesystem where
  "fs_edited = ([''b.txt''], File ''other'') # ([''a.txt''], File ''changed'') # fs_logged_abc"

text \<open>
  After the commit \<^verbatim>\<open>abc\<close> of \<^verbatim>\<open>a.txt\<close>: the working tree as committed, and the working
  tree with \<^verbatim>\<open>a.txt\<close> removed and a new file \<^verbatim>\<open>b.txt\<close> staged behind it.
\<close>

definition fs_unchanged :: filesystem where
  "fs_unchanged =
     ([''vcs'', ''index.txt''], File (''a.txt'' @ [nl])) # ([''a.txt''], File ''hello'') # fs_logged_abc"

definition fs_removed :: filesystem where
  "fs_removed =
     ([''vcs'', ''index.txt''], File (''a.txt'' @ [nl] @ ''b.txt'' @ [nl])) #
     ([''b.txt''], File ''new'') # fs_logged_abc"

text \<open>
  The first commit of \<^verbatim>\<open>a.txt\<close>, and the first commit of a repository that has staged its
  own \<^verbatim>\<open>vcs/config.txt\<close>.
\<close>

definition fs_committed_a :: filesystem where
  "fs_committed_a = state_of (handleCommit toy_digest 42 [''first''] fs_staged_a)"

definition fs_staged_config :: filesystem where
  "fs_staged_config = state_of (handleAdd [''vcs/config.txt''] fs_fresh)"

definition fs_committed_config :: filesystem where
  "fs_committed_config = state_of (handleCommit toy_digest 42 [''first''] fs_staged_config)"

text \<open>A repository that has staged a file of a subdirectory, and its first commit.\<close>

definition fs_staged_sub :: filesystem where
  "fs_staged_sub =
     state_of (handleAdd [''sub/b.txt''] (([''sub'', ''b.txt''], File ''bb'') # ([''sub''], Dir) # fs_fresh))"

definition fs_committed_sub :: filesystem where
  "fs_committed_sub = state_of (handleCommit toy_digest 42 [''first''] fs_staged_sub)"

text \<open>
  The commit directory \<^verbatim>\<open>vcs/commits/abc\<close> in a repository without a log.
\<close>

definition fs_dir_without_log :: filesystem where
  "fs_dir_without_log =
     [([''vcs''], Dir), ([''vcs'', ''commits''], Dir), ([''vcs'', ''commits'', ''abc''], Dir)]"



text \<open>As \<open>fs_removed\<close>, with the new file \<^verbatim>\<open>b.txt\<close> staged in front of \<^verbatim>\<open>a.txt\<close>.\<close>

definition fs_removed_later :: filesystem where
  "fs_removed_later =
     ([''vcs'', ''index.txt''], File (''b.txt'' @ [nl] @ ''a.txt'' @ [nl])) #
     ([''b.txt''], File ''new'') # fs_logged_abc"

text \<open>A commit of \<^verbatim>\<open>abc\<close> whose message ends with two line feeds.\<close>

definition commit_final_nl :: Commit where
  "commit_final_nl = \<lparr>HashID = ''abc'', Author = ''al'', Message = ''fix a'' @ [nl, nl]\<rparr>"

definition fs_logged_final_nl :: filesystem where
  "fs_logged_final_nl = state_of (createLog commit_final_nl fs_dir_without_entry)"

text \<open>A commit of \<^verbatim>\<open>abc\<close> by an author whose name ends with a line feed.\<close>

definition commit_author_nl :: Commit where
  "commit_author_nl = \<lparr>HashID = ''abc'', Author = ''al'' @ [nl], Message = ''fix a''\<rparr>"

definition fs_logged_author_nl :: filesystem where
  "fs_logged_author_nl = state_of (createLog commit_author_nl fs_dir_without_entry)"

section \<open>Properties\<close>

subsection \<open>Strings\<close>

lemma Split_not_Nil: "Split s sep \<noteq> []"
  by (induction s sep rule: Split.induct) (auto split: list.splits)

lemma Split_nl_Cons:
  "Split (c # cs) [nl] =
     (if c = nl then [] # Split cs [nl] else (c # hd (Split cs [nl])) # tl (Split cs [nl]))"
  using Split_not_Nil[of cs "[nl]"] by (auto split: list.splits)

lemma Split_nl_append: "nl \<notin> set a \<Longrightarrow> Split (a @ nl # b) [nl] = a # Split b [nl]"
  by (induction a) (simp_all add: Split_nl_Cons)

lemma hd_Split_nl: "nl \<notin> set x \<Longrightarrow> hd (Split (x @ nl # r) [nl]) = x"
  by (simp add: Split_nl_append)

lemma TrimPrefix_append: "TrimPrefix (pre @ s) pre = s"
  by (simp add: TrimPrefix_def)

lemma hd_Split_newCommitInfo:
  "nl \<notin> set (HashID c) \<Longrightarrow> hd (Split (newCommitInfo c @ r) [nl]) = ''commit '' @ HashID c"
proof -
  assume a: "nl \<notin> set (HashID c)"
  have "newCommitInfo c @ r
          = (''commit '' @ HashID c) @ nl # (''Author: '' @ Author c @ [nl] @ Message c @ [nl, nl] @ r)"
    by (simp add: newCommitInfo_def)
  moreover have "nl \<notin> set (''commit '' @ HashID c)"
    using a by simp
  ultimately show ?thesis
    using hd_Split_nl by presburger
qed

lemma digit_hex: "n < 16 \<Longrightarrow> digit n \<in> set ''0123456789abcdef''"
  unfolding digit_def by (rule nth_mem) simp

lemma hex_byte_hex: "set (hex_byte c) \<subseteq> set ''0123456789abcdef''"
proof -
  define S where "S = set ''0123456789abcdef''"
  have "(of_char c :: nat) < 256"
    by (metis mod_less_divisor of_char_mod_256 zero_less_numeral)
  then have "(of_char c :: nat) div 16 < 16"
    by (simp add: less_mult_imp_div_less)
  then have a: "digit (of_char c div 16) \<in> S"
    unfolding S_def by (rule digit_hex)
  have "(of_char c :: nat) mod 16 < 16" by simp
  then have b: "digit (of_char c mod 16) \<in> S"
    unfolding S_def by (rule digit_hex)
  have "set (hex_byte c) \<subseteq> S"
    using a b by (simp add: hex_byte_def)
  then show ?thesis by (simp only: S_def)
qed

lemma hashContent_hex: "set (hashContent H content) \<subseteq> set ''0123456789abcdef''"
proof
  fix x
  assume "x \<in> set (hashContent H content)"
  then obtain c where "x \<in> set (hex_byte c)"
    by (auto simp: hashContent_def Sprintf_x_def)
  then show "x \<in> set ''0123456789abcdef''"
    using hex_byte_hex [of c] by blast
qed

lemma hashContent_no_nl: "nl \<notin> set (hashContent H content)"
proof -
  have "nl \<notin> set ''0123456789abcdef''" by simp
  then show ?thesis using hashContent_hex [of H content] by blast
qed

lemma length_Sprintf_x: "length (Sprintf_x bs) = 2 * length bs"
  by (induction bs) (simp_all add: Sprintf_x_def hex_byte_def)

lemma length_hashContent: "length (hashContent H content) = 2 * length (H content)"
  by (simp add: hashContent_def length_Sprintf_x)

lemma Split_nlnl_no_blank:
  "no_blank x \<Longrightarrow> Split (x @ nl # nl # r) [nl, nl] = x # Split r [nl, nl]"
  by (induction x rule: no_blank.induct) (auto simp: Split_not_Nil split: list.splits)

lemma hd_Split_Nil_iff: "hd (Split m [nl]) = [] \<longleftrightarrow> m = [] \<or> hd m = nl"
  by (cases m) (simp_all add: Split_nl_Cons del: Split.simps(2))

lemma no_blank_Cons_nl: "no_blank (nl # b) \<longleftrightarrow> b \<noteq> [] \<and> hd b \<noteq> nl \<and> no_blank b"
  by (cases b) auto

lemma no_blank_Cons_other: "c \<noteq> nl \<Longrightarrow> no_blank (c # b) \<longleftrightarrow> no_blank b"
  by (cases b) auto

lemma no_blank_lines: "[] \<notin> set (tl (Split m [nl])) \<Longrightarrow> no_blank m"
proof (induction m)
  case Nil
  then show ?case by simp
next
  case (Cons c cs)
  show ?case
  proof (cases "c = nl")
    case True
    with Cons.prems have a: "[] \<notin> set (Split cs [nl])"
      by (simp add: Split_nl_Cons del: Split.simps(2))
    then have "hd (Split cs [nl]) \<noteq> []"
      using Split_not_Nil [of cs "[nl]"] by (cases "Split cs [nl]") auto
    then have "cs \<noteq> [] \<and> hd cs \<noteq> nl"
      by (simp add: hd_Split_Nil_iff)
    moreover have "no_blank cs"
      using a Cons.IH by (meson list.set_sel(2) Split_not_Nil)
    ultimately show ?thesis
      using True by (simp add: no_blank_Cons_nl)
  next
    case False
    with Cons.prems have "[] \<notin> set (tl (Split cs [nl]))"
      by (simp add: Split_nl_Cons del: Split.simps(2))
    then show ?thesis
      using False Cons.IH by (simp add: no_blank_Cons_other)
  qed
qed

lemma no_blank_append_nl:
  "nl \<notin> set a \<Longrightarrow> no_blank (a @ nl # b) \<longleftrightarrow> b \<noteq> [] \<and> hd b \<noteq> nl \<and> no_blank b"
proof (induction a)
  case Nil
  show ?case by (simp add: no_blank_Cons_nl)
next
  case (Cons c a)
  then have "c \<noteq> nl" and "nl \<notin> set a" by auto
  then show ?case
    using Cons.IH by (simp add: no_blank_Cons_other)
qed

lemma lines_nonempty:
  assumes "[] \<notin> set (Split m [nl])"
  shows "m \<noteq> [] \<and> hd m \<noteq> nl \<and> no_blank m"
proof -
  have "hd (Split m [nl]) \<noteq> []"
    using assms Split_not_Nil [of m "[nl]"] by (cases "Split m [nl]") auto
  moreover have "[] \<notin> set (tl (Split m [nl]))"
    using assms by (meson list.set_sel(2) Split_not_Nil)
  ultimately show ?thesis
    by (simp add: hd_Split_Nil_iff no_blank_lines)
qed

lemma concat_lines: "concat (map (\<lambda>l. l @ [nl]) (Split m [nl])) = m @ [nl]"
proof (induction m)
  case Nil
  then show ?case by simp
next
  case (Cons c cs)
  then show ?case
    using Split_not_Nil [of cs "[nl]"]
    by (cases "Split cs [nl]") (auto simp: Split_nl_Cons simp del: Split.simps(2))
qed

lemma whiteSpace_nl: "w \<in> set whiteSpace \<Longrightarrow> nl \<in> set w \<Longrightarrow> w = [nl]"
  by (auto simp: whiteSpace_def)

lemma leadingSpace_Nil: "leadingSpace [] = 0"
  by (simp add: leadingSpace_def whiteSpace_def)

lemma trailingSpace_Nil: "trailingSpace [] = 0"
  by (simp add: trailingSpace_def whiteSpace_def)

lemma leadingSpace_nl: "leadingSpace [nl] = 1"
  by (simp add: leadingSpace_def whiteSpace_def)

lemma leadingSpace_le: "leadingSpace s \<le> length s"
proof (cases "find (\<lambda>w. prefix w s) whiteSpace")
  case None
  then show ?thesis by (simp add: leadingSpace_def)
next
  case (Some w)
  then have "prefix w s"
    by (auto simp: find_Some_iff)
  then have "length w \<le> length s"
    by (rule prefix_length_le)
  then show ?thesis
    using Some by (simp add: leadingSpace_def)
qed

lemma leadingSpace_snoc: "s \<noteq> [] \<Longrightarrow> leadingSpace (s @ [nl]) = leadingSpace s"
proof -
  assume ne: "s \<noteq> []"
  have "find (\<lambda>w. prefix w (s @ [nl])) whiteSpace = find (\<lambda>w. prefix w s) whiteSpace"
  proof (rule find_cong [OF refl])
    fix w
    assume w: "w \<in> set whiteSpace"
    show "prefix w (s @ [nl]) = prefix w s"
    proof (cases "w = s @ [nl]")
      case True
      then have "w = [nl]"
        using whiteSpace_nl [OF w] by simp
      then show ?thesis
        using True ne by simp
    next
      case False
      then show ?thesis by (simp add: prefix_snoc)
    qed
  qed
  then show ?thesis
    by (simp add: leadingSpace_def)
qed

lemma TrimLeftSpace_Nil: "TrimLeftSpace [] = []"
  by (subst TrimLeftSpace.simps) (simp add: leadingSpace_Nil)

lemma TrimRightSpace_Nil: "TrimRightSpace [] = []"
  by (subst TrimRightSpace.simps) (simp add: trailingSpace_Nil)

lemma TrimLeftSpace_snoc:
  "TrimLeftSpace (s @ [nl]) = (if TrimLeftSpace s = [] then [] else TrimLeftSpace s @ [nl])"
proof (induction s rule: TrimLeftSpace.induct)
  case (1 s)
  show ?case
  proof (cases "s = []")
    case True
    have "TrimLeftSpace [nl] = TrimLeftSpace (drop 1 [nl])"
      by (subst TrimLeftSpace.simps) (simp add: leadingSpace_nl)
    then show ?thesis
      using True by (simp add: TrimLeftSpace_Nil)
  next
    case False
    note l = leadingSpace_snoc [OF False]
    show ?thesis
    proof (cases "leadingSpace s = 0")
      case True
      have a: "TrimLeftSpace s = s"
        using True by (subst TrimLeftSpace.simps) simp
      have b: "TrimLeftSpace (s @ [nl]) = s @ [nl]"
        using True l by (subst TrimLeftSpace.simps) simp
      show ?thesis
        using False by (simp add: a b)
    next
      case nz: False
      have a: "TrimLeftSpace s = TrimLeftSpace (drop (leadingSpace s) s)"
        using nz by (subst TrimLeftSpace.simps) simp
      have "TrimLeftSpace (s @ [nl]) = TrimLeftSpace (drop (leadingSpace s) (s @ [nl]))"
        using nz l by (subst TrimLeftSpace.simps) simp
      also have "drop (leadingSpace s) (s @ [nl]) = drop (leadingSpace s) s @ [nl]"
        using leadingSpace_le [of s] by simp
      finally have b: "TrimLeftSpace (s @ [nl]) = TrimLeftSpace (drop (leadingSpace s) s @ [nl])" .
      show ?thesis
        unfolding b using "1.IH" [OF nz] a by simp
    qed
  qed
qed

lemma suffix_singleton_snoc: "suffix [c] (r @ [d]) \<longleftrightarrow> c = d"
  by (auto simp: suffix_def)

lemma trailingSpace_snoc_nl: "trailingSpace (r @ [nl]) = 1"
  by (simp add: trailingSpace_def whiteSpace_def suffix_singleton_snoc)

lemma TrimRightSpace_snoc_nl: "TrimRightSpace (r @ [nl]) = TrimRightSpace r"
  by (subst TrimRightSpace.simps) (simp add: trailingSpace_snoc_nl)

lemma TrimSpace_append_nl: "TrimSpace (m @ [nl]) = TrimSpace m"
  by (simp add: TrimSpace_def TrimLeftSpace_snoc TrimRightSpace_snoc_nl TrimRightSpace_Nil)

lemma TrimSpace_append_nls: "TrimSpace (m @ replicate k nl) = TrimSpace m"
proof (induction k)
  case 0
  show ?case by simp
next
  case (Suc k)
  have "m @ replicate (Suc k) nl = (m @ replicate k nl) @ [nl]"
    by (simp add: replicate_append_same)
  then show ?case
    using Suc.IH TrimSpace_append_nl [of "m @ replicate k nl"] by simp
qed

lemma TrimSpace_Nil: "TrimSpace [] = []"
  by (simp add: TrimSpace_def TrimLeftSpace_Nil TrimRightSpace_Nil)

lemma withoutFinalLineFeeds_decomp:
  "\<exists>k. m = withoutFinalLineFeeds m @ replicate k nl"
proof -
  have "rev m = takeWhile (\<lambda>c. c = nl) (rev m) @ dropWhile (\<lambda>c. c = nl) (rev m)"
    by simp
  moreover have "takeWhile (\<lambda>c. c = nl) (rev m) = replicate (length (takeWhile (\<lambda>c. c = nl) (rev m))) nl"
    by (rule replicate_length_same [symmetric]) (auto dest: set_takeWhileD)
  ultimately have "rev m = replicate (length (takeWhile (\<lambda>c. c = nl) (rev m))) nl @ dropWhile (\<lambda>c. c = nl) (rev m)"
    by simp
  then have "m = rev (dropWhile (\<lambda>c. c = nl) (rev m)) @ replicate (length (takeWhile (\<lambda>c. c = nl) (rev m))) nl"
    by (metis rev_append rev_replicate rev_rev_ident)
  then show ?thesis
    unfolding withoutFinalLineFeeds_def by blast
qed

lemma entryFields_filter:
  "entryFields ls (a, m) =
     ((case filter (prefix ''Author: '') ls of [] \<Rightarrow> a | x # xs \<Rightarrow> TrimPrefix (last (x # xs)) ''Author: ''),
      m @ concat (map (\<lambda>l. l @ [nl])
            (filter (\<lambda>l. \<not> prefix ''Author: '' l \<and> \<not> prefix ''commit '' l) ls)))"
proof (induction ls arbitrary: a m)
  case Nil
  show ?case by simp
next
  case (Cons l ls)
  show ?case
    by (cases "filter (prefix ''Author: '') ls") (simp_all add: Cons.IH)
qed

lemma entryFields_header:
  "entryFields ((''commit '' @ ident) # (''Author: '' @ au) # ls) ([], []) = entryFields ls (au, [])"
  by (simp add: TrimPrefix_def)

lemma Split_entry:
  assumes "nl \<notin> set ident" and "nl \<notin> set au"
  shows "Split (''commit '' @ ident @ [nl] @ ''Author: '' @ au @ [nl] @ msg) [nl]
           = (''commit '' @ ident) # (''Author: '' @ au) # Split msg [nl]"
proof -
  have a: "nl \<notin> set (''commit '' @ ident)" and b: "nl \<notin> set (''Author: '' @ au)"
    using assms by simp_all
  have "''commit '' @ ident @ [nl] @ ''Author: '' @ au @ [nl] @ msg
          = (''commit '' @ ident) @ nl # ((''Author: '' @ au) @ nl # msg)"
    by simp
  then show ?thesis
    by (simp only: Split_nl_append [OF a] Split_nl_append [OF b])
qed

lemma no_blank_entry:
  assumes "nl \<notin> set ident" and "nl \<notin> set au" and "[] \<notin> set (Split msg [nl])"
  shows "no_blank (''commit '' @ ident @ [nl] @ ''Author: '' @ au @ [nl] @ msg)"
proof -
  have a: "nl \<notin> set (''commit '' @ ident)" and b: "nl \<notin> set (''Author: '' @ au)"
    using assms by simp_all
  have e: "''commit '' @ ident @ [nl] @ ''Author: '' @ au @ [nl] @ msg
          = (''commit '' @ ident) @ nl # ((''Author: '' @ au) @ nl # msg)"
    by simp
  have "no_blank ((''Author: '' @ au) @ nl # msg)"
    using lines_nonempty [OF assms(3)] by (simp only: no_blank_append_nl [OF b]) simp
  moreover have "(''Author: '' @ au) @ nl # msg \<noteq> [] \<and> hd ((''Author: '' @ au) @ nl # msg) \<noteq> nl"
    by simp
  ultimately show ?thesis
    by (simp only: e no_blank_append_nl [OF a]) simp
qed

lemma Split_nl_plain: "nl \<notin> set a \<Longrightarrow> Split a [nl] = [a]"
  by (induction a) (auto simp: Split_nl_Cons simp del: Split.simps(2))

lemma Split_nl_app: "Split (a @ nl # b) [nl] = Split a [nl] @ Split b [nl]"
proof (induction a)
  case Nil
  show ?case by (simp add: Split_nl_Cons del: Split.simps(2))
next
  case (Cons c a)
  show ?case
    using Split_not_Nil [of a "[nl]"]
    by (simp add: Split_nl_Cons Cons.IH del: Split.simps(2))
qed

lemma Split_index_append:
  assumes "idx = [] \<or> last idx = nl" and "nl \<notin> set f"
  shows "\<exists>ls. Split idx [nl] = ls @ [[]] \<and> Split (idx @ f @ nl # rest) [nl] = ls @ f # Split rest [nl]"
proof (cases "idx = []")
  case True
  then show ?thesis
    using Split_nl_app [of f rest] Split_nl_plain [OF assms(2)] by simp
next
  case False
  then obtain a where a: "idx = a @ [nl]"
    using assms(1) by (metis append_butlast_last_id)
  have "Split idx [nl] = Split a [nl] @ [[]]"
    unfolding a using Split_nl_app [of a "[]"] by simp
  moreover have "Split (idx @ f @ nl # rest) [nl] = Split a [nl] @ f # Split rest [nl]"
    unfolding a using Split_nl_app [of a "f @ nl # rest"] Split_nl_app [of f rest] Split_nl_plain [OF assms(2)]
    by simp
  ultimately show ?thesis by blast
qed

lemma Split1_Cons:
  "Split (x # xs) [c] =
     (if x = c then [] # Split xs [c] else (x # hd (Split xs [c])) # tl (Split xs [c]))"
  using Split_not_Nil [of xs "[c]"] by (auto split: list.splits)

lemma Split1_append: "c \<notin> set a \<Longrightarrow> Split (a @ c # b) [c] = a # Split b [c]"
  by (induction a) (auto simp: Split1_Cons simp del: Split.simps(2))

lemma Split1_plain: "c \<notin> set a \<Longrightarrow> Split a [c] = [a]"
  by (induction a) (auto simp: Split1_Cons simp del: Split.simps(2))

lemma norm_proper: "proper_name n \<Longrightarrow> norm st (n # cs) = norm (n # st) cs"
  by (simp add: proper_name_def)

lemma digitValue_digit: "d < 16 \<Longrightarrow> digitValue (digit d) = d"
proof -
  have "\<forall>d \<in> set [0..<16]. digitValue (digit d) = d"
    by code_simp
  moreover assume "d < 16"
  ultimately show ?thesis by simp
qed

lemma decimalValue_snoc: "decimalValue (s @ [c]) = 10 * decimalValue s + digitValue c"
  by (simp add: decimalValue_def)

lemma decimalValue_decimal: "decimalValue (decimal n) = n"
proof (induction n rule: decimal.induct)
  case (1 n)
  show ?case
  proof (cases "n < 10")
    case True
    then have "decimal n = [digit n]"
      by (subst decimal.simps) simp
    moreover have "decimalValue [digit n] = digitValue (digit n)"
      by (simp add: decimalValue_def)
    ultimately show ?thesis
      using True by (simp add: digitValue_digit)
  next
    case False
    then have d: "decimal n = decimal (n div 10) @ [digit (n mod 10)]"
      by (subst decimal.simps) simp
    have "n mod 10 < 16"
      by (rule less_trans [of _ 10]) simp_all
    then have "digitValue (digit (n mod 10)) = n mod 10"
      by (rule digitValue_digit)
    then show ?thesis
      using "1.IH" [OF False] by (simp only: d decimalValue_snoc) simp
  qed
qed

lemma digit_plain: "d < 10 \<Longrightarrow> digit d \<noteq> CHR ''-'' \<and> digit d \<noteq> nl"
proof -
  have "\<forall>d \<in> set [0..<10]. digit d \<noteq> CHR ''-'' \<and> digit d \<noteq> nl"
    by code_simp
  moreover assume "d < 10"
  ultimately show ?thesis by simp
qed

lemma decimal_plain: "decimal n \<noteq> [] \<and> CHR ''-'' \<notin> set (decimal n) \<and> nl \<notin> set (decimal n)"
proof (induction n rule: decimal.induct)
  case (1 n)
  show ?case
  proof (cases "n < 10")
    case True
    then have e: "decimal n = [digit n]"
      by (subst decimal.simps) simp
    show ?thesis
      using digit_plain [OF True] by (simp only: e) auto
  next
    case False
    then have d: "decimal n = decimal (n div 10) @ [digit (n mod 10)]"
      by (subst decimal.simps) simp
    have "n mod 10 < 10" by simp
    then have "digit (n mod 10) \<noteq> CHR ''-'' \<and> digit (n mod 10) \<noteq> nl"
      by (rule digit_plain)
    then show ?thesis
      using "1.IH" [OF False] by (simp only: d) auto
  qed
qed

lemma readInt_decimal: "readInt (decimal n) = int n"
proof -
  obtain c cs where e: "decimal n = c # cs"
    using decimal_plain [of n] by (cases "decimal n") auto
  then have "c \<noteq> CHR ''-''"
    using decimal_plain [of n] by auto
  then have "readInt (c # cs) = int (decimalValue (c # cs))"
    by (simp add: readInt_def)
  then show ?thesis
    by (simp add: decimalValue_decimal e [symmetric])
qed

lemma readInt_Sprintf_d: "readInt (Sprintf_d i) = i"
proof (cases "i < 0")
  case True
  then have "readInt (Sprintf_d i) = - int (decimalValue (decimal (nat (- i))))"
    by (simp add: Sprintf_d_def readInt_def)
  then show ?thesis
    using True by (simp add: decimalValue_decimal)
next
  case False
  then show ?thesis
    by (simp add: Sprintf_d_def readInt_decimal)
qed

lemma fromHex_hex_byte: "fromHex (hex_byte c @ r) = c # fromHex r"
proof -
  have lt: "(of_char c :: nat) < 256"
    by (metis mod_less_divisor of_char_mod_256 zero_less_numeral)
  then have "(of_char c :: nat) div 16 < 16"
    by (simp add: less_mult_imp_div_less)
  then have a: "digitValue (digit (of_char c div 16)) = of_char c div 16"
    by (rule digitValue_digit)
  have "(of_char c :: nat) mod 16 < 16" by simp
  then have b: "digitValue (digit (of_char c mod 16)) = of_char c mod 16"
    by (rule digitValue_digit)
  have "16 * ((of_char c :: nat) div 16) + of_char c mod 16 = of_char c"
    by simp
  then show ?thesis
    by (simp add: hex_byte_def a b)
qed

lemma fromHex_Sprintf_x: "fromHex (Sprintf_x bs) = bs"
  by (induction bs) (simp_all add: Sprintf_x_def fromHex_hex_byte)

subsection \<open>The file system\<close>

lemma at_Nil: "at fs [] = Some Dir"
  by (simp add: at_def)

lemma at_Cons: "at ((k', n) # fs) k = (if k \<noteq> [] \<and> k = k' then Some n else at fs k)"
  by (simp add: at_def)

lemma rev_parent:
  "rev (parent k) =
     (case rev k of
        [] \<Rightarrow> [''..'']
      | t # ts \<Rightarrow> if t = ''..'' then ''..'' # rev k else if t = ''/'' then rev k else ts)"
  by (cases k rule: rev_cases) (simp_all add: parent_def)

lemma norm_dotdot: "norm (rev cur) (''..'' # cs) = norm (rev (parent cur)) cs"
  by (cases "rev cur") (simp_all add: rev_parent)

lemma walk_norm: "walk fs cur cs = Inr k \<Longrightarrow> k = rev (norm (rev cur) cs)"
proof (induction cs arbitrary: cur)
  case Nil
  then show ?case by simp
next
  case (Cons c cs)
  from Cons.prems have d: "at fs cur = Some Dir"
    by (auto split: option.splits node.splits)
  show ?case
  proof (cases "c = [] \<or> c = ''.''")
    case True
    then have "walk fs cur cs = Inr k"
      using Cons.prems d by auto
    then have "k = rev (norm (rev cur) cs)"
      by (rule Cons.IH)
    then show ?thesis
      using True by auto
  next
    case False
    show ?thesis
    proof (cases "c = ''..''")
      case True
      then have "walk fs (parent cur) cs = Inr k"
        using Cons.prems d by (auto split: option.splits node.splits)
      then have "k = rev (norm (rev (parent cur)) cs)"
        by (rule Cons.IH)
      then show ?thesis
        unfolding True by (simp only: norm_dotdot)
    next
      case nd: False
      then have "walk fs (cur @ [c]) cs = Inr k"
        using Cons.prems d False by auto
      then have "k = rev (norm (rev (cur @ [c])) cs)"
        by (rule Cons.IH)
      then show ?thesis
        using False nd by simp
    qed
  qed
qed

lemma locate_resolve: "locate fs p = Inr k \<Longrightarrow> k = resolve p"
  by (auto simp: locate_def resolve_def dest!: walk_norm split: if_splits)

lemma walk_Inl: "walk fs cur cs = Inl e \<Longrightarrow> e = ENOENT \<or> e = ENOTDIR"
  by (induction cs arbitrary: cur) (auto split: option.splits node.splits if_splits)

lemma locate_Inl: "locate fs p = Inl e \<Longrightarrow> e = ENOENT \<or> e = ENOTDIR"
  by (auto simp: locate_def dest: walk_Inl split: if_splits)

lemma walk_mono:
  assumes "\<forall>k. at fs k = Some Dir \<longrightarrow> at fs' k = Some Dir"
  shows "walk fs cur cs = Inr k \<Longrightarrow> walk fs' cur cs = Inr k"
proof (induction cs arbitrary: cur)
  case Nil
  then show ?case by simp
next
  case (Cons c cs)
  from Cons.prems have d: "at fs cur = Some Dir"
    by (auto split: option.splits node.splits)
  then have d': "at fs' cur = Some Dir"
    using assms by simp
  show ?case
  proof (cases "c = [] \<or> c = ''.''")
    case True
    then have "walk fs cur cs = Inr k"
      using Cons.prems d by auto
    then have "walk fs' cur cs = Inr k"
      by (rule Cons.IH)
    then show ?thesis
      using True d' by auto
  next
    case False
    show ?thesis
    proof (cases "c = ''..''")
      case True
      then have p: "at fs (parent cur) = Some Dir" and "walk fs (parent cur) cs = Inr k"
        using Cons.prems d by (auto split: option.splits node.splits)
      then have "walk fs' (parent cur) cs = Inr k"
        using Cons.IH by simp
      moreover have "at fs' (parent cur) = Some Dir"
        using p assms by simp
      ultimately show ?thesis
        using True d' by simp
    next
      case nd: False
      then have "walk fs (cur @ [c]) cs = Inr k"
        using Cons.prems d False by auto
      then have "walk fs' (cur @ [c]) cs = Inr k"
        by (rule Cons.IH)
      then show ?thesis
        using False nd d' by simp
    qed
  qed
qed

lemma locate_mono:
  "\<forall>k. at fs k = Some Dir \<longrightarrow> at fs' k = Some Dir \<Longrightarrow> locate fs p = Inr k \<Longrightarrow> locate fs' p = Inr k"
  by (auto simp: locate_def walk_mono split: if_splits)

lemma walk_ENOTDIR_mono:
  assumes "\<forall>k. at fs k = Some Dir \<longrightarrow> at fs' k = Some Dir"
    and "\<forall>k d. at fs k = Some (File d) \<longrightarrow> (\<exists>d'. at fs' k = Some (File d'))"
  shows "walk fs cur cs = Inl ENOTDIR \<Longrightarrow> walk fs' cur cs = Inl ENOTDIR"
proof (induction cs arbitrary: cur)
  case Nil
  then show ?case by simp
next
  case (Cons c cs)
  show ?case
  proof (cases "at fs cur")
    case None
    then show ?thesis using Cons.prems by simp
  next
    case (Some n)
    show ?thesis
    proof (cases n)
      case (File d)
      then obtain d' where "at fs' cur = Some (File d')"
        using Some assms(2) by blast
      then show ?thesis by simp
    next
      case Dir
      then have d: "at fs cur = Some Dir" and d': "at fs' cur = Some Dir"
        using Some assms(1) by simp_all
      show ?thesis
      proof (cases "c = [] \<or> c = ''.''")
        case True
        then have "walk fs cur cs = Inl ENOTDIR"
          using Cons.prems d by auto
        then have "walk fs' cur cs = Inl ENOTDIR"
          by (rule Cons.IH)
        then show ?thesis
          using True d' by auto
      next
        case False
        show ?thesis
        proof (cases "c = ''..''")
          case True
          show ?thesis
          proof (cases "at fs (parent cur)")
            case None
            then show ?thesis using Cons.prems d True by simp
          next
            case (Some m)
            show ?thesis
            proof (cases m)
              case (File x)
              then obtain x' where "at fs' (parent cur) = Some (File x')"
                using Some assms(2) by blast
              then show ?thesis
                using True d' by simp
            next
              case Dir
              then have p: "at fs (parent cur) = Some Dir"
                using Some by simp
              then have "walk fs (parent cur) cs = Inl ENOTDIR"
                using Cons.prems d True by simp
              then have "walk fs' (parent cur) cs = Inl ENOTDIR"
                by (rule Cons.IH)
              moreover have "at fs' (parent cur) = Some Dir"
                using p assms(1) by simp
              ultimately show ?thesis
                using True d' by simp
            qed
          qed
        next
          case nd: False
          then have "walk fs (cur @ [c]) cs = Inl ENOTDIR"
            using Cons.prems d False by auto
          then have "walk fs' (cur @ [c]) cs = Inl ENOTDIR"
            by (rule Cons.IH)
          then show ?thesis
            using False nd d' by simp
        qed
      qed
    qed
  qed
qed

lemma Cons_File_dirs:
  "at fs kn \<noteq> Some Dir \<Longrightarrow> \<forall>k. at fs k = Some Dir \<longrightarrow> at ((kn, File d) # fs) k = Some Dir"
  by (auto simp: at_Cons)

lemma Cons_File_files:
  "\<forall>k c. at fs k = Some (File c) \<longrightarrow> (\<exists>c'. at ((kn, File d) # fs) k = Some (File c'))"
  by (auto simp: at_Cons)

lemma locate_Cons_File:
  "locate fs p = Inr k \<Longrightarrow> at fs kn \<noteq> Some Dir \<Longrightarrow> locate ((kn, File d) # fs) p = Inr k"
  using locate_mono [OF Cons_File_dirs] by blast

lemma ReadFile_Inr_iff:
  "ReadFile fs p = Inr c \<longleftrightarrow> locate fs p = Inr (resolve p) \<and> at fs (resolve p) = Some (File c)"
  by (auto simp: ReadFile_def Stat_def dest: locate_resolve split: sum.splits option.splits node.splits)

lemma ReadFile_at: "ReadFile fs p = Inr c \<Longrightarrow> at fs (resolve p) = Some (File c)"
  by (simp add: ReadFile_Inr_iff)

lemma Stat_Inr_iff:
  "Stat fs p = Inr n \<longleftrightarrow> locate fs p = Inr (resolve p) \<and> at fs (resolve p) = Some n"
  by (auto simp: Stat_def dest: locate_resolve split: sum.splits option.splits)

lemma WriteFile_Inr:
  "WriteFile fs p d = Inr fs' \<Longrightarrow>
   fs' = (resolve p, File d) # fs \<and> resolve p \<noteq> [] \<and> locate fs p = Inr (resolve p) \<and>
   at fs (resolve p) \<noteq> Some Dir"
  by (auto simp: WriteFile_def at_Nil dest: locate_resolve split: sum.splits option.splits node.splits)


lemma ReadFile_Cons_File_same:
  assumes "locate fs p = Inr k" and "at fs k \<noteq> Some Dir"
  shows "ReadFile ((k, File d) # fs) p = Inr d"
proof -
  have "locate ((k, File d) # fs) p = Inr k"
    using assms by (rule locate_Cons_File)
  moreover have "k \<noteq> []"
    using assms(2) by (auto simp: at_Nil)
  ultimately show ?thesis
    by (simp add: ReadFile_def Stat_def at_Cons)
qed


lemma ReadFile_WriteFile_same: "WriteFile fs p d = Inr fs' \<Longrightarrow> ReadFile fs' p = Inr d"
  by (auto dest!: WriteFile_Inr intro: ReadFile_Cons_File_same)

lemma AppendFile_Inr:
  "AppendFile fs p d = Inr fs' \<Longrightarrow>
   fs' = (resolve p, File ((case ReadFile fs p of Inr c \<Rightarrow> c | Inl e \<Rightarrow> []) @ d)) # fs \<and>
   resolve p \<noteq> [] \<and> locate fs p = Inr (resolve p) \<and> at fs (resolve p) \<noteq> Some Dir"
  by (auto simp: AppendFile_def ReadFile_def Stat_def at_Nil dest: locate_resolve
      split: sum.splits option.splits node.splits)

lemma exists_Cons_File:
  assumes "\<not> IsNotExist (Stat fs p)" and "at fs kn \<noteq> Some Dir"
  shows "\<not> IsNotExist (Stat ((kn, File d) # fs) p)"
proof (cases "locate fs p")
  case (Inl e)
  then have "e = ENOTDIR"
    using assms(1) locate_Inl [OF Inl] by (auto simp: IsNotExist_def Stat_def)
  then have w: "walk fs (if prefix ''/'' p then [''/''] else []) (Split p ''/'') = Inl ENOTDIR" and p: "p \<noteq> []"
    using Inl by (auto simp: locate_def split: if_splits)
  have "walk ((kn, File d) # fs) (if prefix ''/'' p then [''/''] else []) (Split p ''/'') = Inl ENOTDIR"
    using Cons_File_dirs [OF assms(2)] Cons_File_files w by (rule walk_ENOTDIR_mono)
  then have "locate ((kn, File d) # fs) p = Inl ENOTDIR"
    using p by (simp add: locate_def)
  then show ?thesis
    by (simp add: IsNotExist_def Stat_def)
next
  case (Inr k)
  then have "at fs k \<noteq> None"
    using assms(1) by (auto simp: IsNotExist_def Stat_def split: option.splits)
  then have "at ((kn, File d) # fs) k \<noteq> None"
    by (auto simp: at_Cons)
  moreover have "locate ((kn, File d) # fs) p = Inr k"
    using Inr assms(2) by (rule locate_Cons_File)
  ultimately show ?thesis
    by (auto simp: IsNotExist_def Stat_def split: option.splits)
qed

lemma locate_proper: "proper_name n \<Longrightarrow> locate fs n = Inr [n]"
proof -
  assume p: "proper_name n"
  then have "Split n ''/'' = [n]"
    using Split1_plain [of "CHR ''/''" n] by (simp add: proper_name_def)
  moreover have "\<not> prefix ''/'' n"
    using p by (auto simp: proper_name_def prefix_def)
  ultimately show ?thesis
    using p by (simp add: locate_def at_Nil proper_name_def)
qed

lemma resolve_proper: "proper_name n \<Longrightarrow> resolve n = [n]"
  using locate_proper [of n "[]"] locate_resolve by fastforce

lemma Join_dot: "proper_name n \<Longrightarrow> Join [''.'', n] = n"
proof -
  assume p: "proper_name n"
  then have s: "CHR ''/'' \<notin> set n" and e: "n \<noteq> []"
    by (simp_all add: proper_name_def)
  have "Split (''.'' @ CHR ''/'' # n) ''/'' = [''.'', n]"
    using Split1_append [of "CHR ''/''" "''.''" n] Split1_plain [OF s] by simp
  then have "resolve (''.'' @ CHR ''/'' # n) = [n]"
    unfolding resolve_def using norm_proper [OF p, of "[]" "[]"] by simp
  then show ?thesis
    using e by (simp add: Join_def Clean_def)
qed

lemma resolve_Join_dot: "proper_name n \<Longrightarrow> resolve (Join [''.'', n]) = [n]"
  by (simp add: Join_dot resolve_proper)








lemma resolve_logFilePath: "resolve logFilePath = [''vcs'', ''log.txt'']"
  by (simp add: resolve_def logFilePath_def)

lemma locate_commitDir:
  "locate fs commitDir =
     (case at fs [''vcs''] of
        None \<Rightarrow> Inl ENOENT
      | Some (File d) \<Rightarrow> Inl ENOTDIR
      | Some Dir \<Rightarrow> Inr [''vcs'', ''commits''])"
  by (simp add: locate_def commitDir_def at_Nil split: option.splits node.splits)

lemma locate_logFilePath:
  "locate fs logFilePath =
     (case at fs [''vcs''] of
        None \<Rightarrow> Inl ENOENT
      | Some (File d) \<Rightarrow> Inl ENOTDIR
      | Some Dir \<Rightarrow> Inr [''vcs'', ''log.txt''])"
  by (simp add: locate_def logFilePath_def at_Nil split: option.splits node.splits)


subsection \<open>The log\<close>

lemma createLog_Ret:
  "createLog c fs = Ret u fs' \<Longrightarrow>
   ReadFile fs' logFilePath = Inr (newCommitInfo c @ (case ReadFile fs logFilePath of Inr x \<Rightarrow> x | Inl e \<Rightarrow> []))"
  by (auto simp: createLog_def Let_def ReadFile_WriteFile_same split: sum.splits if_splits)

lemma createLog_frame: "createLog c fs = Ret u fs' \<Longrightarrow> k \<noteq> resolve logFilePath \<Longrightarrow> at fs' k = at fs k"
  by (auto simp: createLog_def Let_def at_Cons dest!: WriteFile_Inr split: if_splits sum.splits)

lemma MkdirAll_commitDir:
  "at fs [''vcs''] = Some Dir \<Longrightarrow> at fs [''vcs'', ''commits''] = None \<Longrightarrow>
   MkdirAll fs commitDir = (None, ([''vcs'', ''commits''], Dir) # fs)"
  by (simp add: MkdirAll_def commitDir_def at_Cons)

lemma getLastCommitID_read:
  assumes "ReadFile fs logFilePath = Inr content"
  shows "fst (getLastCommitID fs) = TrimPrefix (hd (Split content [nl])) ''commit ''"
proof -
  have l: "locate fs logFilePath = Inr [''vcs'', ''log.txt'']"
    and a: "at fs [''vcs'', ''log.txt''] = Some (File content)"
    using assms by (simp_all add: ReadFile_Inr_iff resolve_logFilePath)
  have v: "at fs [''vcs''] = Some Dir"
    using l by (auto simp: locate_logFilePath split: option.splits node.splits)
  show ?thesis
  proof (cases "IsNotExist (Stat fs commitDir)")
    case True
    then have "at fs [''vcs'', ''commits''] = None"
      using v by (auto simp: IsNotExist_def Stat_def locate_commitDir split: option.splits)
    then have m: "MkdirAll fs commitDir = (None, ([''vcs'', ''commits''], Dir) # fs)"
      using v by (simp add: MkdirAll_commitDir)
    have "ReadFile (([''vcs'', ''commits''], Dir) # fs) logFilePath = Inr content"
      using v a by (simp add: ReadFile_def Stat_def locate_logFilePath at_Cons)
    then show ?thesis
      using True m by (simp add: getLastCommitID_def)
  next
    case False
    then show ?thesis
      using assms by (simp add: getLastCommitID_def)
  qed
qed

lemma TrimPrefix_eq_iff: "TrimPrefix s pre = x \<longleftrightarrow> s = pre @ x \<or> (s = x \<and> \<not> prefix pre s)"
  by (auto simp: TrimPrefix_def prefix_def)

lemma findEntry_None_iff: "findEntry ident es = None \<longleftrightarrow> \<not> list_ex (entryMatches ident) es"
  by (induction es) (auto simp: Let_def entryMatches_def TrimPrefix_eq_iff split: prod.splits)

lemma no_blank_plain: "nl \<notin> set a \<Longrightarrow> no_blank a"
  by (induction a rule: no_blank.induct) auto

lemma no_blank_header:
  assumes "nl \<notin> set ident" and "nl \<notin> set au"
  shows "no_blank (''commit '' @ ident @ [nl] @ ''Author: '' @ au)"
proof -
  have a: "nl \<notin> set (''commit '' @ ident)" and b: "nl \<notin> set (''Author: '' @ au)"
    using assms by simp_all
  have e: "''commit '' @ ident @ [nl] @ ''Author: '' @ au = (''commit '' @ ident) @ nl # (''Author: '' @ au)"
    by simp
  have "no_blank (''Author: '' @ au)"
    using b by (rule no_blank_plain)
  moreover have "''Author: '' @ au \<noteq> [] \<and> hd (''Author: '' @ au) \<noteq> nl"
    by simp
  ultimately show ?thesis
    by (simp only: e no_blank_append_nl [OF a]) simp
qed

lemma Split_header:
  assumes "nl \<notin> set ident" and "nl \<notin> set au"
  shows "Split (''commit '' @ ident @ [nl] @ ''Author: '' @ au) [nl] = [''commit '' @ ident, ''Author: '' @ au]"
proof -
  have a: "nl \<notin> set (''commit '' @ ident)" and b: "nl \<notin> set (''Author: '' @ au)"
    using assms by simp_all
  have "''commit '' @ ident @ [nl] @ ''Author: '' @ au = (''commit '' @ ident) @ nl # (''Author: '' @ au)"
    by simp
  then show ?thesis
    by (simp only: Split_nl_append [OF a] Split_nl_plain [OF b])
qed

lemma Split_snoc_nl: "Split (x @ [nl]) [nl] = Split x [nl] @ [[]]"
  using Split_nl_app [of x "[]"] by simp

lemma Split_final_nls: "\<exists>es. Split (x @ replicate k nl) [nl] = Split x [nl] @ es \<and> set es \<subseteq> {[]}"
proof (induction k)
  case 0
  show ?case by simp
next
  case (Suc k)
  then obtain es where es: "Split (x @ replicate k nl) [nl] = Split x [nl] @ es" "set es \<subseteq> {[]}"
    by blast
  have "x @ replicate (Suc k) nl = (x @ replicate k nl) @ [nl]"
    by (simp add: replicate_append_same)
  then have "Split (x @ replicate (Suc k) nl) [nl] = Split x [nl] @ (es @ [[]])"
    using es(1) Split_snoc_nl [of "x @ replicate k nl"] by simp
  moreover have "set (es @ [[]]) \<subseteq> {[]}"
    using es(2) by simp
  ultimately show ?case by blast
qed

text \<open>The lines of a message that come back from the log.\<close>

lemma message_lines:
  obtains k es where "Message c = withoutFinalLineFeeds (Message c) @ replicate k nl"
    and "Split (Message c) [nl] = Split (withoutFinalLineFeeds (Message c)) [nl] @ es"
    and "set es \<subseteq> {[]}"
proof -
  obtain k where k: "Message c = withoutFinalLineFeeds (Message c) @ replicate k nl"
    using withoutFinalLineFeeds_decomp by blast
  obtain es where "Split (withoutFinalLineFeeds (Message c) @ replicate k nl) [nl]
                     = Split (withoutFinalLineFeeds (Message c)) [nl] @ es" and "set es \<subseteq> {[]}"
    using Split_final_nls by blast
  then show ?thesis
    using that k by simp
qed

lemma findCommitById_after_createLog:
  assumes "createLog c fs = Ret u fs'"
    and "\<not> IsNotExist (Stat fs' (Join [commitDir, HashID c]))"
    and "nl \<notin> set (HashID c)" and "nl \<notin> set (Author c)"
    and "withoutFinalLineFeeds (Message c) = [] \<or> [] \<notin> set (Split (withoutFinalLineFeeds (Message c)) [nl])"
  shows "findCommitById fs' (HashID c) =
           Ret (Some \<lparr>HashID = HashID c,
                      Author = (case filter (prefix ''Author: '') (Split (Message c) [nl]) of
                                  [] \<Rightarrow> Author c
                                | x # xs \<Rightarrow> TrimPrefix (last (x # xs)) ''Author: ''),
                      Message = TrimSpace (concat (map (\<lambda>l. l @ [nl])
                                  (filter (\<lambda>l. l \<noteq> [] \<and> \<not> prefix ''Author: '' l \<and> \<not> prefix ''commit '' l)
                                     (Split (Message c) [nl]))))\<rparr>) fs'"
proof -
  define core where "core = withoutFinalLineFeeds (Message c)"
  define head where "head = ''commit '' @ HashID c @ [nl] @ ''Author: '' @ Author c"
  define older where "older = (case ReadFile fs logFilePath of Inr x \<Rightarrow> x | Inl e \<Rightarrow> [])"
  obtain k es where k: "Message c = core @ replicate k nl"
    and es: "Split (Message c) [nl] = Split core [nl] @ es" "set es \<subseteq> {[]}"
    unfolding core_def by (rule message_lines)
  have fa: "filter (prefix ''Author: '') (Split (Message c) [nl]) = filter (prefix ''Author: '') (Split core [nl])"
  proof -
    have "filter (prefix ''Author: '') es = []"
      using es(2) by (auto simp: filter_empty_conv)
    then show ?thesis by (simp add: es(1))
  qed
  have fm: "filter (\<lambda>l. l \<noteq> [] \<and> \<not> prefix ''Author: '' l \<and> \<not> prefix ''commit '' l) (Split (Message c) [nl])
              = filter (\<lambda>l. l \<noteq> [] \<and> \<not> prefix ''Author: '' l \<and> \<not> prefix ''commit '' l) (Split core [nl])"
  proof -
    have "filter (\<lambda>l. l \<noteq> [] \<and> \<not> prefix ''Author: '' l \<and> \<not> prefix ''commit '' l) es = []"
      using es(2) by (auto simp: filter_empty_conv)
    then show ?thesis by (simp add: es(1))
  qed
  have log: "ReadFile fs' logFilePath = Inr (newCommitInfo c @ older)"
    using createLog_Ret [OF assms(1)] by (simp add: older_def)
  have nls: "replicate k nl @ [nl, nl] = nl # nl # replicate k nl"
    by (induction k) simp_all
  show ?thesis
  proof (cases "core = []")
    case True
    have "newCommitInfo c @ older = head @ nl # (replicate k nl @ [nl, nl]) @ older"
      using True by (simp add: newCommitInfo_def head_def k)
    also have "\<dots> = head @ nl # nl # (nl # replicate k nl @ older)"
      by (simp only: nls) simp
    finally have t: "newCommitInfo c @ older = head @ nl # nl # (nl # replicate k nl @ older)" .
    have nb: "no_blank head"
      unfolding head_def by (rule no_blank_header [OF assms(3) assms(4)])
    have s: "Split (newCommitInfo c @ older) [nl, nl] = head # Split (nl # replicate k nl @ older) [nl, nl]"
      unfolding t by (rule Split_nlnl_no_blank [OF nb])
    have l: "Split head [nl] = [''commit '' @ HashID c, ''Author: '' @ Author c]"
      unfolding head_def by (rule Split_header [OF assms(3) assms(4)])
    have "findEntry (HashID c) (head # Split (nl # replicate k nl @ older) [nl, nl]) =
            Some \<lparr>HashID = HashID c, Author = Author c, Message = TrimSpace []\<rparr>"
      apply (simp only: findEntry.simps l Let_def list.sel TrimPrefix_append entryFields_header
            if_True simp_thms)
      apply (simp only: entryFields.simps split_conv)
      done
    then show ?thesis
      using assms(2) True by (simp add: findCommitById_def log s fa fm)
  next
    case False
    then have ne: "[] \<notin> set (Split core [nl])"
      using assms(5) by (simp add: core_def)
    define body where "body = ''commit '' @ HashID c @ [nl] @ ''Author: '' @ Author c @ [nl] @ core"
    have "newCommitInfo c @ older = body @ (replicate k nl @ [nl, nl]) @ older"
      by (simp add: newCommitInfo_def body_def k)
    also have "\<dots> = body @ nl # nl # (replicate k nl @ older)"
      by (simp only: nls) simp
    finally have t: "newCommitInfo c @ older = body @ nl # nl # (replicate k nl @ older)" .
    have nb: "no_blank body"
      unfolding body_def by (rule no_blank_entry [OF assms(3) assms(4) ne])
    have s: "Split (newCommitInfo c @ older) [nl, nl] = body # Split (replicate k nl @ older) [nl, nl]"
      unfolding t by (rule Split_nlnl_no_blank [OF nb])
    have l: "Split body [nl] = (''commit '' @ HashID c) # (''Author: '' @ Author c) # Split core [nl]"
      unfolding body_def by (rule Split_entry [OF assms(3) assms(4)])
    have same: "filter (\<lambda>l. l \<noteq> [] \<and> \<not> prefix ''Author: '' l \<and> \<not> prefix ''commit '' l) (Split core [nl])
                  = filter (\<lambda>l. \<not> prefix ''Author: '' l \<and> \<not> prefix ''commit '' l) (Split core [nl])"
      using ne by (intro filter_cong) auto
    have "findEntry (HashID c) (body # Split (replicate k nl @ older) [nl, nl]) =
            Some \<lparr>HashID = HashID c,
                        Author = (case filter (prefix ''Author: '') (Split core [nl]) of
                                    [] \<Rightarrow> Author c
                                  | x # xs \<Rightarrow> TrimPrefix (last (x # xs)) ''Author: ''),
                        Message = TrimSpace (concat (map (\<lambda>l. l @ [nl])
                                    (filter (\<lambda>l. \<not> prefix ''Author: '' l \<and> \<not> prefix ''commit '' l)
                                       (Split core [nl]))))\<rparr>"
      apply (simp only: findEntry.simps l Let_def list.sel TrimPrefix_append entryFields_header
            if_True simp_thms)
      apply (simp only: entryFields_filter split_conv append_Nil)
      done
    then show ?thesis
      using assms(2) by (simp add: findCommitById_def log s fa fm same)
  qed
qed

subsection \<open>The index\<close>

lemma setupAdd_IsTracked:
  assumes "setupAdd f fs = Ret (IsTracked f) fs1"
  shows "f \<noteq> [] \<and> \<not> IsNotExist (Stat fs f) \<and>
         (\<exists>idx. ReadFile fs indexFilePath = Inr idx \<and> f \<notin> set (Split idx [nl]) \<and>
            locate fs indexFilePath = Inr (resolve indexFilePath) \<and>
            fs1 = (resolve indexFilePath, File (idx @ f @ [nl])) # fs)"
  using assms
  by (auto simp: setupAdd_def readIndex_def isFileTracked_def createIndex_def
      dest!: AppendFile_Inr split: if_splits sum.splits res.splits bool.splits prod.splits option.splits)

lemma setupAdd_AlreadyTracked:
  assumes "f \<noteq> []" and "\<not> IsNotExist (Stat fs f)"
    and "ReadFile fs indexFilePath = Inr idx" and "f \<in> set (Split idx [nl])"
  shows "setupAdd f fs = Ret (AlreadyTracked f) fs"
  using assms by (simp add: setupAdd_def isFileTracked_def)

subsection \<open>Copying and checkout\<close>

lemma copyFile_frame:
  "copyFile fs src dst = (e, fs') \<Longrightarrow> k \<noteq> resolve dst \<Longrightarrow> at fs' k = at fs k"
  by (auto simp: copyFile_def at_Cons dest!: WriteFile_Inr split: sum.splits)


lemma copyFile_None:
  assumes "copyFile fs src dst = (None, fs')"
  shows "\<exists>c. fs' = (resolve dst, File c) # (resolve dst, File []) # fs \<and> resolve dst \<noteq> [] \<and>
           locate fs dst = Inr (resolve dst) \<and> at fs (resolve dst) \<noteq> Some Dir \<and>
           (resolve src \<noteq> resolve dst \<longrightarrow> at fs (resolve src) = Some (File c))"
  using assms
  by (auto simp: copyFile_def ReadFile_Inr_iff at_Cons dest!: WriteFile_Inr split: sum.splits if_splits)

lemma restoreFiles_frame:
  "k \<notin> (\<lambda>n. resolve (Join [''.'', n])) ` set names \<Longrightarrow>
   at (state_of (restoreFiles d names fs)) k = at fs k"
proof (induction names arbitrary: fs)
  case Nil
  show ?case by (simp add: state_of_def)
next
  case (Cons n names)
  obtain e fs1 where c: "copyFile fs (Join [d, n]) (Join [''.'', n]) = (e, fs1)"
    by (cases "copyFile fs (Join [d, n]) (Join [''.'', n])")
  have k: "k \<noteq> resolve (Join [''.'', n])"
    using Cons.prems by auto
  have f1: "at fs1 k = at fs k"
    using copyFile_frame [OF c k] .
  show ?case
  proof (cases e)
    case None
    then have "restoreFiles d (n # names) fs = restoreFiles d names fs1"
      using c by simp
    then show ?thesis
      using Cons.IH [of fs1] Cons.prems f1 by simp
  next
    case (Some x)
    then have "restoreFiles d (n # names) fs = Fatal fs1"
      using c by simp
    then show ?thesis
      using f1 by (simp add: state_of_def)
  qed
qed

lemma findCommitById_Ret: "findCommitById fs ident = Ret r fs' \<Longrightarrow> fs' = fs"
  by (auto simp: findCommitById_def split: sum.splits if_splits)

lemma findCommitById_Fatal: "findCommitById fs ident = Fatal fs' \<Longrightarrow> fs' = fs"
  by (auto simp: findCommitById_def split: sum.splits if_splits)

lemma switchCommit_state:
  "state_of (switchCommit ident fs) =
     (case findCommitById fs ident of
        Ret (Some c) fs' \<Rightarrow>
          (case ReadDir fs (Join [commitDir, ident]) of
             Inr names \<Rightarrow> state_of (restoreFiles (Join [commitDir, ident]) names fs)
           | Inl e \<Rightarrow> fs)
      | _ \<Rightarrow> fs)"
  by (auto simp: switchCommit_def state_of_def dest: findCommitById_Ret findCommitById_Fatal
      split: res.splits option.splits sum.splits)


subsection \<open>Changes since the last commit\<close>

lemma fileHasChanges_eq:
  "fileHasChanges H p lc fs =
     (if incomparable fs lc p then Fatal fs else Ret (changed H fs lc p) fs)"
  by (auto simp: fileHasChanges_def incomparable_def changed_def lastCommitFile_def Let_def
      split: sum.splits)

lemma hasChanges_False_iff:
  "hasChanges H ps lc fs = Ret False fs' \<longleftrightarrow>
     fs' = fs \<and> (\<forall>p \<in> set ps. p \<noteq> [] \<longrightarrow> \<not> incomparable fs lc p \<and> \<not> changed H fs lc p)"
  by (induction ps) (auto simp: fileHasChanges_eq split: bool.splits)

lemma hasChanges_True:
  "hasChanges H ps lc fs = Ret True fs' \<Longrightarrow>
     fs' = fs \<and> (\<exists>p \<in> set ps. p \<noteq> [] \<and> changed H fs lc p)"
  by (induction ps) (auto simp: fileHasChanges_eq split: if_splits bool.splits)

lemma hasChanges_comparable:
  "\<forall>p \<in> set ps. p \<noteq> [] \<longrightarrow> \<not> incomparable fs lc p \<Longrightarrow>
   hasChanges H ps lc fs = Ret (\<exists>p \<in> set ps. p \<noteq> [] \<and> changed H fs lc p) fs"
  by (induction ps) (auto simp: fileHasChanges_eq split: bool.splits)

lemma hasChanges_find:
  "hasChanges H ps lc fs =
     (case find (\<lambda>p. incomparable fs lc p \<or> changed H fs lc p) (filter (\<lambda>p. p \<noteq> []) ps) of
        None \<Rightarrow> Ret False fs
      | Some p \<Rightarrow> if incomparable fs lc p then Fatal fs else Ret True fs)"
  by (induction ps) (auto simp: fileHasChanges_eq split: bool.splits)

lemma identical_not_changed:
  "identical fs lc p \<Longrightarrow> \<not> incomparable fs lc p \<and> \<not> changed H fs lc p"
  by (auto simp: identical_def incomparable_def changed_def ReadFile_def
      split: sum.splits option.splits node.splits)

lemma Sprintf_x_inject: "Sprintf_x a = Sprintf_x b \<Longrightarrow> a = b"
  using fromHex_Sprintf_x by metis

lemma not_changed_sameDigest:
  assumes "\<not> incomparable fs lc p" and "\<not> changed H fs lc p"
  shows "sameDigest H fs lc p \<and>
         (identical fs lc p \<or>
          (\<exists>stored current.
             ReadFile fs (lastCommitFile p lc) = Inr stored \<and> ReadFile fs p = Inr current \<and>
             stored \<noteq> current \<and> H stored = H current))"
proof -
  from assms obtain stored current where s: "ReadFile fs (lastCommitFile p lc) = Inr stored"
    and c: "ReadFile fs p = Inr current"
    and h: "hashContent H stored = hashContent H current"
    by (auto simp: incomparable_def changed_def split: sum.splits)
  have "H stored = H current"
    using h by (auto simp: hashContent_def dest: Sprintf_x_inject)
  then show ?thesis
    using s c h by (auto simp: sameDigest_def identical_def)
qed

subsection \<open>Commits\<close>

lemma dirs_added_refl: "dirs_added fs fs"
  by (simp add: dirs_added_def)

lemma dirs_added_trans: "dirs_added a b \<Longrightarrow> dirs_added b c \<Longrightarrow> dirs_added a c"
  unfolding dirs_added_def by (metis option.distinct(1))

lemma dirs_added_Cons: "at fs k = None \<Longrightarrow> dirs_added fs ((k, Dir) # fs)"
  by (auto simp: dirs_added_def at_Cons)

lemma dirs_added_File: "dirs_added fs fs' \<Longrightarrow> at fs' k = Some (File c) \<Longrightarrow> at fs k = Some (File c)"
  unfolding dirs_added_def by (metis node.distinct(1) option.inject)

lemma dirs_added_dirs: "dirs_added fs fs' \<Longrightarrow> \<forall>k. at fs k = Some Dir \<longrightarrow> at fs' k = Some Dir"
  unfolding dirs_added_def by (metis option.distinct(1))

lemma dirs_added_ReadFile: "dirs_added fs fs' \<Longrightarrow> ReadFile fs p = Inr c \<Longrightarrow> ReadFile fs' p = Inr c"
proof -
  assume d: "dirs_added fs fs'" and r: "ReadFile fs p = Inr c"
  then have l: "locate fs p = Inr (resolve p)" and a: "at fs (resolve p) = Some (File c)"
    by (simp_all add: ReadFile_Inr_iff)
  have "locate fs' p = Inr (resolve p)"
    using dirs_added_dirs [OF d] l by (rule locate_mono)
  moreover have "at fs' (resolve p) = Some (File c)"
    using d a unfolding dirs_added_def by (metis option.distinct(1))
  ultimately show ?thesis
    by (simp add: ReadFile_Inr_iff)
qed

lemma dirs_added_ReadFile_back:
  "dirs_added fs fs' \<Longrightarrow> \<not> isl (Stat fs p) \<Longrightarrow> ReadFile fs' p = Inr c \<Longrightarrow> ReadFile fs p = Inr c"
proof -
  assume d: "dirs_added fs fs'" and s: "\<not> isl (Stat fs p)" and r: "ReadFile fs' p = Inr c"
  from s obtain n where "Stat fs p = Inr n"
    by (cases "Stat fs p") auto
  then have l: "locate fs p = Inr (resolve p)" and "at fs (resolve p) = Some n"
    by (simp_all add: Stat_Inr_iff)
  moreover have "at fs (resolve p) = Some (File c)"
    using dirs_added_File [OF d] r by (simp add: ReadFile_Inr_iff)
  ultimately show ?thesis
    by (simp add: ReadFile_Inr_iff)
qed

lemma dirs_added_mkdirs: "dirs_added fs (snd (mkdirs fs pre cs))"
proof (induction cs arbitrary: fs pre)
  case Nil
  show ?case by (simp add: dirs_added_refl)
next
  case (Cons c cs)
  show ?case
  proof (cases "at fs (pre @ [c])")
    case None
    then have "dirs_added fs ((pre @ [c], Dir) # fs)"
      by (rule dirs_added_Cons)
    then show ?thesis
      using None Cons.IH [of "(pre @ [c], Dir) # fs" "pre @ [c]"] by (auto intro: dirs_added_trans)
  next
    case (Some n)
    then show ?thesis
      using Cons.IH [of fs "pre @ [c]"] by (cases n) (simp_all add: dirs_added_refl)
  qed
qed

lemma dirs_added_MkdirAll: "dirs_added fs (snd (MkdirAll fs p))"
  by (simp add: MkdirAll_def dirs_added_mkdirs)

lemma dirs_added_Mkdir: "Mkdir fs p = Inr fs' \<Longrightarrow> dirs_added fs fs'"
  by (auto simp: Mkdir_def Let_def dirs_added_Cons split: option.splits node.splits if_splits sum.splits)

lemma dirs_added_getLastCommitID: "dirs_added fs (snd (getLastCommitID fs))"
  using dirs_added_MkdirAll [of fs commitDir]
  by (auto simp: getLastCommitID_def Let_def dirs_added_refl split: prod.splits sum.splits)

lemma dirs_added_createCommitDir: "createCommitDir c fs = (r, fs') \<Longrightarrow> dirs_added fs fs'"
  by (auto simp: createCommitDir_def Let_def dirs_added_refl dirs_added_Mkdir split: if_splits sum.splits)

lemma createCommitDir_path: "createCommitDir c fs = (Inr path, fs') \<Longrightarrow> path = commitDir @ ''/'' @ HashID c"
  by (auto simp: createCommitDir_def Let_def split: if_splits sum.splits)

lemma compareWithLastCommit_Ret: "compareWithLastCommit H fs = Ret b fs' \<Longrightarrow> fs' = snd (getLastCommitID fs)"
proof -
  assume r: "compareWithLastCommit H fs = Ret b fs'"
  obtain l fs1 where g: "getLastCommitID fs = (l, fs1)"
    by (cases "getLastCommitID fs")
  show ?thesis
  proof (cases "l = []")
    case True
    then show ?thesis using r g by (simp add: compareWithLastCommit_def)
  next
    case False
    then show ?thesis
      using r g hasChanges_True [of H _ l fs1 fs'] hasChanges_False_iff [of H _ l fs1 fs']
      by (cases b) (auto simp: compareWithLastCommit_def split: sum.splits)
  qed
qed

lemma createCommit_Ret: "createCommit m fs = Ret c fs' \<Longrightarrow> fs' = fs \<and> Message c = m \<and> (\<exists>a. ReadFile fs configPath = Inr a \<and> Author c = a)"
  by (auto simp: createCommit_def readConfig_def split: sum.splits res.splits)

lemma copyEach_content:
  assumes "copyEach snap ps fs = Ret u fs'"
    and "\<forall>p \<in> set ps. \<forall>q \<in> set ps. p \<noteq> [] \<and> q \<noteq> [] \<longrightarrow>
           resolve p \<noteq> resolve (destination snap q) \<and>
           (resolve (destination snap p) = resolve (destination snap q) \<longrightarrow> p = q)"
  shows "(\<forall>p \<in> set ps. p \<noteq> [] \<longrightarrow>
            (\<exists>c. at fs (resolve p) = Some (File c) \<and> at fs' (resolve (destination snap p)) = Some (File c))) \<and>
         (\<forall>k. k \<notin> (\<lambda>p. resolve (destination snap p)) ` {p \<in> set ps. p \<noteq> []} \<longrightarrow> at fs' k = at fs k)"
  using assms
proof (induction ps arbitrary: fs)
  case Nil
  then show ?case by simp
next
  case (Cons p ps)
  let ?d = "\<lambda>p. resolve (destination snap p)"
  have sep: "\<forall>p \<in> set ps. \<forall>q \<in> set ps. p \<noteq> [] \<and> q \<noteq> [] \<longrightarrow>
           resolve p \<noteq> ?d q \<and> (?d p = ?d q \<longrightarrow> p = q)"
    using Cons.prems(2) by simp
  show ?case
  proof (cases "p = []")
    case True
    then have "copyEach snap ps fs = Ret u fs'"
      using Cons.prems(1) by simp
    from Cons.IH [OF this sep] show ?thesis
      using True by auto
  next
    case False
    obtain e fs1 where cp: "copyFile fs p (destination snap p) = (e, fs1)"
      by (cases "copyFile fs p (destination snap p)")
    have e: "e = None" and rest: "copyEach snap ps fs1 = Ret u fs'"
      using Cons.prems(1) False cp by (auto split: option.splits)
    have pd: "resolve p \<noteq> ?d p"
      using Cons.prems(2) False by simp
    from copyFile_None [OF cp [unfolded e]] pd obtain c where
      fs1: "fs1 = (?d p, File c) # (?d p, File []) # fs" and dn: "?d p \<noteq> []"
      and src: "at fs (resolve p) = Some (File c)"
      by blast
    have fr: "at fs1 k = at fs k" if "k \<noteq> ?d p" for k
      using that by (simp add: fs1 at_Cons)
    have here: "at fs1 (?d p) = Some (File c)"
      using dn by (simp add: fs1 at_Cons)
    from Cons.IH [OF rest sep] have
      got: "\<forall>q \<in> set ps. q \<noteq> [] \<longrightarrow>
              (\<exists>c. at fs1 (resolve q) = Some (File c) \<and> at fs' (?d q) = Some (File c))"
      and frame: "\<forall>k. k \<notin> ?d ` {q \<in> set ps. q \<noteq> []} \<longrightarrow> at fs' k = at fs1 k"
      by blast+
    have srcs: "at fs1 (resolve q) = at fs (resolve q)" if "q \<in> set (p # ps)" and "q \<noteq> []" for q
    proof (rule fr)
      have "p \<in> set (p # ps)" by simp
      then show "resolve q \<noteq> ?d p"
        using Cons.prems(2) that False by blast
    qed
    have all: "\<exists>c. at fs (resolve q) = Some (File c) \<and> at fs' (?d q) = Some (File c)"
      if q: "q \<in> set (p # ps)" and qn: "q \<noteq> []" for q
    proof (cases "q \<in> set ps")
      case True
      then show ?thesis
        using got qn srcs [OF q qn] by auto
    next
      case False
      then have qp: "q = p" using q by simp
      have "?d p \<notin> ?d ` {q \<in> set ps. q \<noteq> []}"
      proof
        assume "?d p \<in> ?d ` {q \<in> set ps. q \<noteq> []}"
        then obtain r where r: "r \<in> set ps" "r \<noteq> []" "?d p = ?d r"
          by auto
        have "p \<in> set (p # ps)" and "r \<in> set (p # ps)"
          using r(1) by simp_all
        then have "?d p = ?d r \<longrightarrow> p = r"
          using Cons.prems(2) \<open>p \<noteq> []\<close> r(2) by blast
        then have "p = r"
          using r(3) by simp
        then show False
          using r(1) False qp by simp
      qed
      then have "at fs' (?d p) = at fs1 (?d p)"
        using frame by blast
      then show ?thesis
        using qp src here by simp
    qed
    have frame': "at fs' k = at fs k" if "k \<notin> ?d ` {q \<in> set (p # ps). q \<noteq> []}" for k
    proof -
      have "k \<noteq> ?d p" and "k \<notin> ?d ` {q \<in> set ps. q \<noteq> []}"
        using that False by auto
      then show ?thesis
        using frame fr by auto
    qed
    show ?thesis
      using all frame' by blast
  qed
qed

lemma copyFilesToCommitDir_Ret:
  assumes "copyFilesToCommitDir snap fs = Ret u fs'"
  shows "\<exists>fs1 idx. dirs_added fs fs1 \<and> ReadFile fs1 indexFilePath = Inr idx \<and>
           copyEach snap (Split idx [nl]) fs1 = Ret u fs'"
proof -
  obtain e fs1 where m: "(if IsNotExist (Stat fs commitDir) then MkdirAll fs commitDir else (None, fs)) = (e, fs1)"
    by (cases "if IsNotExist (Stat fs commitDir) then MkdirAll fs commitDir else (None, fs)")
  have d: "dirs_added fs fs1"
    using m dirs_added_MkdirAll [of fs commitDir] by (auto simp: dirs_added_refl split: if_splits)
  show ?thesis
    using assms m d by (auto simp: copyFilesToCommitDir_def split: option.splits sum.splits)
qed

lemma handleCommit_committed:
  assumes "handleCommit H now args fs = Ret ChangesAreCommitted fs'"
  shows "\<exists>fs3 fs4 idx c.
           dirs_added fs fs3 \<and>
           ReadFile fs indexFilePath = Inr idx \<and>
           ReadFile fs3 indexFilePath = Inr idx \<and>
           HashID c = hashContent H (idx @ Sprintf_d now) \<and>
           Message c = getMessageFromArgs args \<and>
           copyEach (commitDir @ ''/'' @ HashID c) (Split idx [nl]) fs3 = Ret () fs4 \<and>
           createLog c fs4 = Ret () fs'"
proof -
  from assms have ne: "\<not> isIndexEmpty fs"
    by (auto simp: handleCommit_def Let_def split: if_splits)
  then have st: "\<not> isl (Stat fs indexFilePath)"
    by (auto simp: isIndexEmpty_def split: sum.splits)
  from assms obtain fs1 where cmp: "compareWithLastCommit H fs = Ret True fs1"
    by (auto simp: handleCommit_def Let_def split: if_splits res.splits)
  have fs1: "fs1 = snd (getLastCommitID fs)"
    using compareWithLastCommit_Ret [OF cmp] .
  have d1: "dirs_added fs fs1"
    unfolding fs1 by (rule dirs_added_getLastCommitID)
  from assms cmp obtain c0 fs2 where cc: "createCommit (getMessageFromArgs args) fs1 = Ret c0 fs2"
    by (auto simp: handleCommit_def Let_def split: if_splits res.splits)
  have fs2: "fs2 = fs1" and m0: "Message c0 = getMessageFromArgs args"
    using createCommit_Ret [OF cc] by auto
  from assms cmp cc obtain ident where ci: "createId c0 H now fs2 = Inr ident"
    by (auto simp: handleCommit_def Let_def split: if_splits res.splits sum.splits)
  then obtain idx where i1: "ReadFile fs1 indexFilePath = Inr idx"
    and ident: "ident = hashContent H (idx @ Sprintf_d now)"
    unfolding fs2 by (auto simp: createId_def split: sum.splits if_splits)
  define c where "c = c0\<lparr>HashID := ident\<rparr>"
  from assms cmp cc ci obtain path fs3 where cd: "createCommitDir c fs2 = (Inr path, fs3)"
    unfolding c_def by (auto simp: handleCommit_def Let_def split: if_splits res.splits sum.splits prod.splits)
  have path: "path = commitDir @ ''/'' @ HashID c"
    using createCommitDir_path [OF cd] .
  have d3: "dirs_added fs1 fs3"
    using dirs_added_createCommitDir [OF cd] fs2 by simp
  from assms cmp cc ci cd obtain fs4 where cf: "copyFilesToCommitDir path fs3 = Ret () fs4"
    and cl: "createLog c fs4 = Ret () fs'"
    unfolding c_def by (auto simp: handleCommit_def Let_def split: if_splits res.splits sum.splits prod.splits)
  from copyFilesToCommitDir_Ret [OF cf] obtain fs3' idx' where
    d3': "dirs_added fs3 fs3'" and i3: "ReadFile fs3' indexFilePath = Inr idx'"
    and ce: "copyEach path (Split idx' [nl]) fs3' = Ret () fs4"
    by blast
  have dall: "dirs_added fs fs3'"
    using d1 d3 d3' dirs_added_trans by blast
  have i0: "ReadFile fs indexFilePath = Inr idx'"
    using dirs_added_ReadFile_back [OF dall st i3] .
  then have "ReadFile fs1 indexFilePath = Inr idx'"
    using dirs_added_ReadFile [OF d1] by simp
  then have same: "idx = idx'"
    using i1 by simp
  have "HashID c = hashContent H (idx' @ Sprintf_d now)"
    using ident same by (simp add: c_def)
  moreover have "Message c = getMessageFromArgs args"
    using m0 by (simp add: c_def)
  ultimately show ?thesis
    using dall i0 i3 ce cl path by blast
qed

subsection \<open>Checkout of a commit that does not exist\<close>

text \<open>
  Claim C1, as amended. \<open>switchCommit\<close> reports \<^verbatim>\<open>Commit does not exist.\<close> exactly
  when \<^verbatim>\<open>vcs/commits/<identifier>\<close> does not exist, or the log can be read and none of
  its entries matches the identifier; the file system is then left as it was. The
  entries are the pieces of the log between empty lines, the piece behind the last
  empty line included, and an entry matches when its first line is \<^verbatim>\<open>commit\<close>, a space
  and the identifier, or is the identifier itself and does not begin with \<^verbatim>\<open>commit\<close>
  and a space (\<open>entryMatches\<close>). So the report is avoided only when the directory and
  a matching entry are both there. When the directory is there and the log cannot
  be read, the process ends.
\<close>

theorem checkout_not_found_iff:
  "(switchCommit ident fs = Ret CommitDoesNotExist fs' \<longleftrightarrow>
      fs' = fs \<and>
      (IsNotExist (Stat fs (Join [commitDir, ident])) \<or>
       (\<exists>logContent. ReadFile fs logFilePath = Inr logContent \<and>
          \<not> list_ex (entryMatches ident) (Split logContent [nl, nl])))) \<and>
   (\<not> IsNotExist (Stat fs (Join [commitDir, ident])) \<and> isl (ReadFile fs logFilePath) \<longrightarrow>
      switchCommit ident fs = Fatal fs)"
  by (auto simp: switchCommit_def findCommitById_def findEntry_None_iff [symmetric]
      split: sum.splits res.splits option.splits)

text \<open>
  The theorem at a state whose log has no entry for \<^verbatim>\<open>abc\<close>, and at a state that has
  the directory of \<^verbatim>\<open>abc\<close> and no log.
\<close>

theorem checkout_not_found_iff_witness:
  "switchCommit ''abc'' fs_dir_without_entry = Ret CommitDoesNotExist fs_dir_without_entry \<and>
   switchCommit ''abc'' fs_dir_without_log = Fatal fs_dir_without_log"
proof -
  have "ReadFile fs_dir_without_entry logFilePath
          = Inr (''commit def'' @ [nl] @ ''Author: al'' @ [nl] @ ''first'' @ [nl, nl]) \<and>
        \<not> list_ex (entryMatches ''abc'')
             (Split (''commit def'' @ [nl] @ ''Author: al'' @ [nl] @ ''first'' @ [nl, nl]) [nl, nl])"
    by code_simp
  then have a: "switchCommit ''abc'' fs_dir_without_entry = Ret CommitDoesNotExist fs_dir_without_entry"
    using checkout_not_found_iff [of "''abc''" fs_dir_without_entry fs_dir_without_entry]
    by blast
  have "\<not> IsNotExist (Stat fs_dir_without_log (Join [commitDir, ''abc''])) \<and>
        isl (ReadFile fs_dir_without_log logFilePath)"
    by code_simp
  then have b: "switchCommit ''abc'' fs_dir_without_log = Fatal fs_dir_without_log"
    using checkout_not_found_iff [of "''abc''" fs_dir_without_log fs_dir_without_log]
    by blast
  show ?thesis
    using a b by (rule conjI)
qed

text \<open>
  Claim C1 as stated fails: the report comes although the commit directory exists
  (first state), and although the log has a matching entry (second state).
\<close>

theorem checkout_not_found_counterexample:
  "Stat fs_dir_without_entry (Join [commitDir, ''abc'']) = Inr Dir \<and>
   switchCommit ''abc'' fs_dir_without_entry = Ret CommitDoesNotExist fs_dir_without_entry \<and>
   ReadFile fs_entry_without_dir logFilePath
     = Inr (''commit abc'' @ [nl] @ ''Author: al'' @ [nl] @ ''first'' @ [nl, nl]) \<and>
   findEntry ''abc'' (Split (''commit abc'' @ [nl] @ ''Author: al'' @ [nl] @ ''first'' @ [nl, nl]) [nl, nl])
     = Some \<lparr>HashID = ''abc'', Author = ''al'', Message = ''first''\<rparr> \<and>
   switchCommit ''abc'' fs_entry_without_dir = Ret CommitDoesNotExist fs_entry_without_dir"
  by code_simp

subsection \<open>The order of the log\<close>

text \<open>
  Claim C5. \<open>createLog\<close> puts the new entry in front of the log. So when a commit
  \<open>c1\<close> is logged, the log is then left alone, and a commit \<open>c2\<close> is logged,
  \<open>getLastCommitID\<close> returns the identifier of \<open>c2\<close>, the log reads the entry of \<open>c2\<close>,
  then the entry of \<open>c1\<close>, then what was there before, and \<open>readCommits\<close> shows
  exactly this text (or \<^verbatim>\<open>No commits yet.\<close> when \<^verbatim>\<open>vcs/commits\<close> has no entry). The
  identifier has no line feed, as every identifier made by \<open>hashContent\<close>.
\<close>

theorem log_newest_first:
  assumes "createLog c1 fs = Ret u1 fs1"
    and "ReadFile fs1' logFilePath = ReadFile fs1 logFilePath"
    and "createLog c2 fs1' = Ret u2 fs2"
    and "nl \<notin> set (HashID c2)"
  shows "fst (getLastCommitID fs2) = HashID c2 \<and>
         ReadFile fs2 logFilePath = Inr (newCommitInfo c2 @ newCommitInfo c1 @ existingLog fs) \<and>
         (case ReadDir fs2 commitDir of
            Inr (e # es) \<Rightarrow>
              readCommits fs2 = Ret (ShowLog (newCommitInfo c2 @ newCommitInfo c1 @ existingLog fs)) fs2
          | _ \<Rightarrow> readCommits fs2 = Ret NoCommitsYet fs2)"
proof (intro conjI)
  have r1: "ReadFile fs1 logFilePath = Inr (newCommitInfo c1 @ existingLog fs)"
    using createLog_Ret [OF assms(1)] by (simp add: existingLog_def)
  show r2: "ReadFile fs2 logFilePath = Inr (newCommitInfo c2 @ newCommitInfo c1 @ existingLog fs)"
    using createLog_Ret [OF assms(3)] assms(2) r1 by simp
  show "fst (getLastCommitID fs2) = HashID c2"
    by (simp only: getLastCommitID_read [OF r2] hd_Split_newCommitInfo [OF assms(4)] TrimPrefix_append)
  show "case ReadDir fs2 commitDir of
            Inr (e # es) \<Rightarrow>
              readCommits fs2 = Ret (ShowLog (newCommitInfo c2 @ newCommitInfo c1 @ existingLog fs)) fs2
          | _ \<Rightarrow> readCommits fs2 = Ret NoCommitsYet fs2"
    by (simp add: readCommits_def r2 split: sum.splits list.splits)
qed

text \<open>The theorem for two commits logged one right after the other.\<close>

theorem log_newest_first_witness:
  "fst (getLastCommitID fs_logged_second) = ''bb02'' \<and>
   ReadFile fs_logged_second logFilePath
     = Inr (newCommitInfo commit_second @ newCommitInfo commit_first @ existingLog fs_dir_without_entry) \<and>
   readCommits fs_logged_second
     = Ret (ShowLog (newCommitInfo commit_second @ newCommitInfo commit_first
                       @ existingLog fs_dir_without_entry)) fs_logged_second"
proof -
  have h1: "createLog commit_first fs_dir_without_entry = Ret () fs_logged_first"
    by code_simp
  have h2: "createLog commit_second fs_logged_first = Ret () fs_logged_second"
    by code_simp
  have h3: "nl \<notin> set (HashID commit_second)"
    by code_simp
  have d: "ReadDir fs_logged_second commitDir = Inr [''abc'']"
    by code_simp
  have i: "HashID commit_second = ''bb02''"
    by (simp add: commit_second_def)
  show ?thesis
    using log_newest_first [OF h1 refl h2 h3] by (simp add: d i)
qed

subsection \<open>Writing an entry and finding it again\<close>

lemma roundtrip_message:
  assumes "withoutFinalLineFeeds m = [] \<or> [] \<notin> set (Split (withoutFinalLineFeeds m) [nl])"
    and "\<forall>l \<in> set (Split m [nl]). \<not> prefix ''Author: '' l \<and> \<not> prefix ''commit '' l"
  shows "TrimSpace (concat (map (\<lambda>l. l @ [nl])
           (filter (\<lambda>l. l \<noteq> [] \<and> \<not> prefix ''Author: '' l \<and> \<not> prefix ''commit '' l) (Split m [nl]))))
         = TrimSpace m"
proof -
  define core where "core = withoutFinalLineFeeds m"
  obtain k where k: "m = core @ replicate k nl"
    unfolding core_def using withoutFinalLineFeeds_decomp by blast
  obtain es where es: "Split m [nl] = Split core [nl] @ es" "set es \<subseteq> {[]}"
    using Split_final_nls [of core k] k by auto
  have f: "filter (\<lambda>l. l \<noteq> [] \<and> \<not> prefix ''Author: '' l \<and> \<not> prefix ''commit '' l) (Split m [nl])
             = filter (\<lambda>l. l \<noteq> []) (Split m [nl])"
    using assms(2) by (intro filter_cong) auto
  have "filter (\<lambda>l. l \<noteq> []) es = []"
    using es(2) by (auto simp: filter_empty_conv)
  then have g: "filter (\<lambda>l. l \<noteq> []) (Split m [nl]) = filter (\<lambda>l. l \<noteq> []) (Split core [nl])"
    by (simp add: es(1))
  have t: "TrimSpace m = TrimSpace core"
    by (subst k) (rule TrimSpace_append_nls)
  show ?thesis
  proof (cases "core = []")
    case True
    then show ?thesis
      by (simp add: f g t TrimSpace_Nil)
  next
    case False
    then have "[] \<notin> set (Split core [nl])"
      using assms(1) by (simp add: core_def)
    then have "filter (\<lambda>l. l \<noteq> []) (Split core [nl]) = Split core [nl]"
      by (auto simp: filter_id_conv)
    then show ?thesis
      by (simp add: f g t concat_lines TrimSpace_append_nl)
  qed
qed

text \<open>
  Claim C10, as amended. Let a commit be logged whose directory exists and whose
  identifier and author have no line feed. Let its message, the line feeds at its end
  apart, be empty or have no empty line (so it does not begin with a line feed and
  has no two line feeds in a row). When no line of the message begins with
  \<^verbatim>\<open>Author: \<close> or \<^verbatim>\<open>commit \<close>, \<open>findCommitById\<close> returns the identifier, the author and
  the trimmed message. When lines of the message begin with \<^verbatim>\<open>Author: \<close>, the rest of
  the last of them is returned as the author.
\<close>

theorem log_entry_roundtrip:
  assumes "createLog c fs = Ret u fs'"
    and "\<not> IsNotExist (Stat fs' (Join [commitDir, HashID c]))"
    and "nl \<notin> set (HashID c)"
    and "nl \<notin> set (Author c)"
    and "withoutFinalLineFeeds (Message c) = [] \<or>
         [] \<notin> set (Split (withoutFinalLineFeeds (Message c)) [nl])"
  shows "((\<forall>l \<in> set (Split (Message c) [nl]). \<not> prefix ''Author: '' l \<and> \<not> prefix ''commit '' l) \<longrightarrow>
            findCommitById fs' (HashID c)
              = Ret (Some \<lparr>HashID = HashID c, Author = Author c, Message = TrimSpace (Message c)\<rparr>) fs') \<and>
         (\<forall>x xs. filter (prefix ''Author: '') (Split (Message c) [nl]) = x # xs \<longrightarrow>
            (\<exists>m. findCommitById fs' (HashID c)
                   = Ret (Some \<lparr>HashID = HashID c, Author = TrimPrefix (last (x # xs)) ''Author: '',
                                Message = m\<rparr>) fs'))"
proof (intro conjI impI allI)
  assume plain: "\<forall>l \<in> set (Split (Message c) [nl]). \<not> prefix ''Author: '' l \<and> \<not> prefix ''commit '' l"
  then have a: "filter (prefix ''Author: '') (Split (Message c) [nl]) = []"
    by (simp add: filter_empty_conv)
  show "findCommitById fs' (HashID c)
          = Ret (Some \<lparr>HashID = HashID c, Author = Author c, Message = TrimSpace (Message c)\<rparr>) fs'"
    unfolding findCommitById_after_createLog [OF assms] a roundtrip_message [OF assms(5) plain]
    by simp
next
  fix x xs
  assume "filter (prefix ''Author: '') (Split (Message c) [nl]) = x # xs"
  then show "\<exists>m. findCommitById fs' (HashID c)
                   = Ret (Some \<lparr>HashID = HashID c, Author = TrimPrefix (last (x # xs)) ''Author: '',
                                Message = m\<rparr>) fs'"
    unfolding findCommitById_after_createLog [OF assms] by simp
qed

text \<open>
  The theorem for a commit with the message \<^verbatim>\<open>fix a\<close> followed by two line feeds: the
  message comes back trimmed.
\<close>

theorem log_entry_roundtrip_witness:
  "findCommitById fs_logged_final_nl ''abc''
     = Ret (Some \<lparr>HashID = ''abc'', Author = ''al'', Message = ''fix a''\<rparr>) fs_logged_final_nl"
proof -
  have h1: "createLog commit_final_nl fs_dir_without_entry = Ret () fs_logged_final_nl"
    by code_simp
  have h2: "\<not> IsNotExist (Stat fs_logged_final_nl (Join [commitDir, HashID commit_final_nl]))"
    by code_simp
  have h3: "nl \<notin> set (HashID commit_final_nl)" and h4: "nl \<notin> set (Author commit_final_nl)"
    by code_simp+
  have w: "withoutFinalLineFeeds (Message commit_final_nl) = ''fix a''"
    by code_simp
  have lw: "Split ''fix a'' [nl] = [''fix a'']"
    by code_simp
  have h5: "withoutFinalLineFeeds (Message commit_final_nl) = [] \<or>
            [] \<notin> set (Split (withoutFinalLineFeeds (Message commit_final_nl)) [nl])"
    unfolding w lw by simp
  have l: "Split (Message commit_final_nl) [nl] = [''fix a'', [], []]"
    by code_simp
  have t: "TrimSpace (Message commit_final_nl) = ''fix a''"
    by code_simp
  show ?thesis
    using log_entry_roundtrip [OF h1 h2 h3 h4 h5] unfolding l t
    by (simp add: commit_final_nl_def)
qed

text \<open>
  Claim C10 as stated fails for a message with an empty line, though none of its
  lines begins with \<^verbatim>\<open>Author: \<close> or \<^verbatim>\<open>commit \<close>: the entry found ends at the empty line.
  It fails as well for an author with a line feed at the end of the name, which makes
  the empty line: the author comes back without it and the message is lost.
\<close>

theorem log_entry_roundtrip_counterexample:
  "Split (Message commit_blank_line) [nl] = [''a'', [], ''b''] \<and>
   createLog commit_blank_line fs_dir_without_entry = Ret () fs_logged_blank_line \<and>
   Stat fs_logged_blank_line (Join [commitDir, HashID commit_blank_line]) = Inr Dir \<and>
   TrimSpace (Message commit_blank_line) = ''a'' @ [nl, nl] @ ''b'' \<and>
   findCommitById fs_logged_blank_line (HashID commit_blank_line)
     = Ret (Some \<lparr>HashID = ''abc'', Author = ''al'', Message = ''a''\<rparr>) fs_logged_blank_line \<and>
   createLog commit_author_nl fs_dir_without_entry = Ret () fs_logged_author_nl \<and>
   Split (Message commit_author_nl) [nl] = [''fix a''] \<and>
   findCommitById fs_logged_author_nl (HashID commit_author_nl)
     = Ret (Some \<lparr>HashID = ''abc'', Author = ''al'', Message = []\<rparr>) fs_logged_author_nl"
  by code_simp

subsection \<open>The identifier of a commit\<close>

text \<open>
  Claim C9. \<open>createId\<close> returns an identifier exactly when the index can be read and
  is not empty, and the identifier is then the digest, in hexadecimal, of the content
  of the index followed by the time stamp in decimal. The time stamp is read back
  from its decimal form, so different time stamps give different texts to hash; the
  digest is read back from the identifier, two hexadecimal digits for each byte. The
  digest function gives 32 bytes (256 bits), so the identifier has 64 characters, all
  of them hexadecimal digits. The identifier is the one that a successful commit
  writes on the first line of the log.
\<close>

theorem commit_id_derivation:
  assumes "\<forall>content. length (H content) = 32"
  shows "(createId c H now fs = Inr ident \<longleftrightarrow>
            (\<exists>indexContent. ReadFile fs indexFilePath = Inr indexContent \<and> indexContent \<noteq> [] \<and>
               ident = hashContent H (indexContent @ Sprintf_d now))) \<and>
         readInt (Sprintf_d now) = now \<and>
         (\<forall>indexContent now'.
            indexContent @ Sprintf_d now = indexContent @ Sprintf_d now' \<longrightarrow> now = now') \<and>
         fromHex (hashContent H content) = H content \<and>
         length (hashContent H content) = 64 \<and>
         set (hashContent H content) \<subseteq> set ''0123456789abcdef'' \<and>
         (\<forall>args fs'. handleCommit H now args fs = Ret ChangesAreCommitted fs' \<longrightarrow>
            (\<exists>indexContent. ReadFile fs indexFilePath = Inr indexContent \<and>
               fst (getLastCommitID fs') = hashContent H (indexContent @ Sprintf_d now)))"
proof (intro conjI)
  show "createId c H now fs = Inr ident \<longleftrightarrow>
            (\<exists>indexContent. ReadFile fs indexFilePath = Inr indexContent \<and> indexContent \<noteq> [] \<and>
               ident = hashContent H (indexContent @ Sprintf_d now))"
    by (auto simp: createId_def split: sum.splits)
  show "readInt (Sprintf_d now) = now"
    by (rule readInt_Sprintf_d)
  show "\<forall>indexContent now'.
            indexContent @ Sprintf_d now = indexContent @ Sprintf_d now' \<longrightarrow> now = now'"
  proof (intro allI impI)
    fix indexContent now'
    assume "indexContent @ Sprintf_d now = indexContent @ Sprintf_d now'"
    then have "readInt (Sprintf_d now) = readInt (Sprintf_d now')"
      by simp
    then show "now = now'"
      by (simp only: readInt_Sprintf_d)
  qed
  show "fromHex (hashContent H content) = H content"
    by (simp add: hashContent_def fromHex_Sprintf_x)
  show "length (hashContent H content) = 64"
    using assms by (simp add: length_hashContent)
  show "set (hashContent H content) \<subseteq> set ''0123456789abcdef''"
    by (rule hashContent_hex)
  show "\<forall>args fs'. handleCommit H now args fs = Ret ChangesAreCommitted fs' \<longrightarrow>
            (\<exists>indexContent. ReadFile fs indexFilePath = Inr indexContent \<and>
               fst (getLastCommitID fs') = hashContent H (indexContent @ Sprintf_d now))"
  proof (intro allI impI)
    fix args fs'
    assume "handleCommit H now args fs = Ret ChangesAreCommitted fs'"
    from handleCommit_committed [OF this] obtain fs4 idx cm where
      i: "ReadFile fs indexFilePath = Inr idx"
      and h: "HashID cm = hashContent H (idx @ Sprintf_d now)"
      and cl: "createLog cm fs4 = Ret () fs'"
      by blast
    have n: "nl \<notin> set (HashID cm)"
      unfolding h by (rule hashContent_no_nl)
    have "fst (getLastCommitID fs') = HashID cm"
      by (simp only: getLastCommitID_read [OF createLog_Ret [OF cl]] hd_Split_newCommitInfo [OF n]
          TrimPrefix_append)
    then show "\<exists>indexContent. ReadFile fs indexFilePath = Inr indexContent \<and>
               fst (getLastCommitID fs') = hashContent H (indexContent @ Sprintf_d now)"
      using i h by simp
  qed
qed

text \<open>
  The theorem for the index that lists \<^verbatim>\<open>a.txt\<close> and the time stamp 42, and for the
  commit made from them.
\<close>

theorem commit_id_derivation_witness:
  "createId commit_first toy_digest 42 fs_staged_a
     = Inr ''612e7478740a3432000000000000000000000000000000000000000000000000'' \<and>
   length (hashContent toy_digest (''a.txt'' @ [nl] @ Sprintf_d 42)) = 64 \<and>
   fst (getLastCommitID fs_committed_a)
     = ''612e7478740a3432000000000000000000000000000000000000000000000000''"
proof -
  have h: "\<forall>content. length (toy_digest content) = 32"
    by (auto simp: toy_digest_def)
  have r: "ReadFile fs_staged_a indexFilePath = Inr (''a.txt'' @ [nl])"
    by code_simp
  have v: "hashContent toy_digest ((''a.txt'' @ [nl]) @ Sprintf_d 42)
             = ''612e7478740a3432000000000000000000000000000000000000000000000000''"
    by code_simp
  have k: "handleCommit toy_digest 42 [''first''] fs_staged_a = Ret ChangesAreCommitted fs_committed_a"
    by code_simp
  note t = commit_id_derivation [OF h, of commit_first 42 fs_staged_a _ "''a.txt'' @ [nl] @ Sprintf_d 42"]
  have a: "createId commit_first toy_digest 42 fs_staged_a
          = Inr (hashContent toy_digest ((''a.txt'' @ [nl]) @ Sprintf_d 42))"
    using t r by blast
  have b: "length (hashContent toy_digest (''a.txt'' @ [nl] @ Sprintf_d 42)) = 64"
    using t by blast
  have "\<exists>indexContent. ReadFile fs_staged_a indexFilePath = Inr indexContent \<and>
          fst (getLastCommitID fs_committed_a) = hashContent toy_digest (indexContent @ Sprintf_d 42)"
    using t k by blast
  then have c: "fst (getLastCommitID fs_committed_a) = hashContent toy_digest ((''a.txt'' @ [nl]) @ Sprintf_d 42)"
    using r by auto
  show ?thesis
    using a b c by (simp only: v)
qed

subsection \<open>A commit with an empty index\<close>

text \<open>
  Claim C7, as amended. With an empty index (missing, or of size 0) \<open>handleCommit\<close>
  reports \<^verbatim>\<open>Nothing to commit.\<close> when it was given a message, and \<^verbatim>\<open>Message was not passed.\<close>
  when the message is empty after its white space is trimmed. In both cases it leaves
  every file and directory as it was: no commit directory, no entry in the log.
\<close>

theorem commit_empty_index:
  assumes "isIndexEmpty fs"
  shows "handleCommit H now args fs =
           (if getMessageFromArgs args = [] then Ret MessageWasNotPassed fs else Ret NothingToCommit fs)"
  using assms by (simp add: handleCommit_def Let_def)

text \<open>The theorem for a fresh repository and the message \<^verbatim>\<open>first\<close>.\<close>

theorem commit_empty_index_witness:
  "handleCommit toy_digest 42 [''first''] fs_fresh = Ret NothingToCommit fs_fresh"
proof -
  have h: "isIndexEmpty fs_fresh"
    by code_simp
  have m: "getMessageFromArgs [''first''] = ''first''"
    by code_simp
  show ?thesis
    using commit_empty_index [OF h, of toy_digest 42 "[''first'']"] by (simp add: m)
qed

text \<open>
  Claim C7 as stated fails when no message is given, or a message of white space only
  (here the no-break space U+00A0): the index is empty and the report is not
  \<^verbatim>\<open>Nothing to commit.\<close>
\<close>

theorem commit_empty_index_counterexample:
  "isIndexEmpty fs_fresh \<and>
   handleCommit toy_digest 42 [] fs_fresh = Ret MessageWasNotPassed fs_fresh \<and>
   handleCommit toy_digest 42 [[CHR 0xC2, CHR 0xA0]] fs_fresh = Ret MessageWasNotPassed fs_fresh"
  by code_simp

subsection \<open>Staging a path twice\<close>

text \<open>
  Claim C6, as amended. Let the index hold whole lines (it is empty or ends with a
  line feed, as \<open>createIndex\<close> leaves it) and let \<open>setupAdd\<close> stage a path \<open>f\<close> that
  has no line feed in it. Then \<open>f\<close> is one line of the index, and once only; staging
  \<open>f\<close> again, any number of times, is answered with the report that the file is
  already tracked and changes nothing; and the same holds in every later state where
  the index has grown and \<open>f\<close> is still found.
\<close>

theorem stage_idempotent:
  assumes "setupAdd f fs = Ret (IsTracked f) fs1"
    and "ReadFile fs indexFilePath = Inr idx"
    and "idx = [] \<or> last idx = nl"
    and "nl \<notin> set f"
  shows "ReadFile fs1 indexFilePath = Inr (idx @ f @ [nl]) \<and>
         count_list (Split (idx @ f @ [nl]) [nl]) f = 1 \<and>
         setupAdd f fs1 = Ret (AlreadyTracked f) fs1 \<and>
         handleAdd [f] fs1 = Ret (AlreadyTracked f) fs1 \<and>
         (\<forall>n. ((\<lambda>s. state_of (setupAdd f s)) ^^ n) fs1 = fs1) \<and>
         (\<forall>fs2 rest. ReadFile fs2 indexFilePath = Inr (idx @ f @ nl # rest) \<and> \<not> IsNotExist (Stat fs2 f)
            \<longrightarrow> setupAdd f fs2 = Ret (AlreadyTracked f) fs2)"

proof -
  from setupAdd_IsTracked [OF assms(1)] assms(2)
  have f: "f \<noteq> []" and ex: "\<not> IsNotExist (Stat fs f)"
    and new: "f \<notin> set (Split idx [nl])"
    and loc: "locate fs indexFilePath = Inr (resolve indexFilePath)"
    and fs1: "fs1 = (resolve indexFilePath, File (idx @ f @ [nl])) # fs"
    by auto
  have nd: "at fs (resolve indexFilePath) \<noteq> Some Dir"
    using ReadFile_at [OF assms(2)] by simp
  have r1: "ReadFile fs1 indexFilePath = Inr (idx @ f @ [nl])"
    unfolding fs1 using loc nd by (rule ReadFile_Cons_File_same)
  have ex1: "\<not> IsNotExist (Stat fs1 f)"
    unfolding fs1 using ex nd by (rule exists_Cons_File)
  have lines: "\<And>rest. \<exists>ls. Split idx [nl] = ls @ [[]] \<and>
                 Split (idx @ f @ nl # rest) [nl] = ls @ f # Split rest [nl]"
    using Split_index_append [OF assms(3) assms(4)] by blast
  have later: "setupAdd f fs2 = Ret (AlreadyTracked f) fs2"
    if "ReadFile fs2 indexFilePath = Inr (idx @ f @ nl # rest)" and "\<not> IsNotExist (Stat fs2 f)"
    for fs2 rest
  proof -
    have "f \<in> set (Split (idx @ f @ nl # rest) [nl])"
      using lines [of rest] by auto
    then show ?thesis
      using setupAdd_AlreadyTracked [OF f that(2) that(1)] by simp
  qed
  have again: "setupAdd f fs1 = Ret (AlreadyTracked f) fs1"
    using later [of fs1 "[]"] r1 ex1 by simp
  have once: "count_list (Split (idx @ f @ [nl]) [nl]) f = 1"
  proof -
    obtain ls where ls: "Split idx [nl] = ls @ [[]]"
      and s: "Split (idx @ f @ [nl]) [nl] = ls @ f # Split [] [nl]"
      using lines [of "[]"] by auto
    have "count_list ls f = 0"
      using new ls by (simp add: count_list_0_iff)
    then show ?thesis
      unfolding s using f by simp
  qed
  have "Stat fs1 indexFilePath = Inr (File (idx @ f @ [nl]))"
    using r1 by (auto simp: ReadFile_def split: sum.splits node.splits)
  then have cmd: "handleAdd [f] fs1 = Ret (AlreadyTracked f) fs1"
    using r1 again by (simp add: handleAdd_def IsNotExist_def)
  have many: "((\<lambda>s. state_of (setupAdd f s)) ^^ n) fs1 = fs1" for n
    by (induction n) (simp_all add: again state_of_def)
  from r1 once again cmd many later show ?thesis
    by blast
qed

text \<open>The theorem for \<^verbatim>\<open>a.txt\<close> in a fresh repository with an empty index.\<close>

theorem stage_idempotent_witness:
  "ReadFile fs_staged_a indexFilePath = Inr (''a.txt'' @ [nl]) \<and>
   count_list (Split (''a.txt'' @ [nl]) [nl]) ''a.txt'' = 1 \<and>
   setupAdd ''a.txt'' fs_staged_a = Ret (AlreadyTracked ''a.txt'') fs_staged_a \<and>
   handleAdd [''a.txt''] fs_staged_a = Ret (AlreadyTracked ''a.txt'') fs_staged_a"
proof -
  have h1: "setupAdd ''a.txt'' fs_indexed = Ret (IsTracked ''a.txt'') fs_staged_a"
    by code_simp
  have h2: "ReadFile fs_indexed indexFilePath = Inr []"
    by code_simp
  have h3: "[] = [] \<or> last [] = nl"
    by simp
  have h4: "nl \<notin> set ''a.txt''"
    by simp
  show ?thesis
    using stage_idempotent [OF h1 h2 h3 h4] by simp
qed

text \<open>
  Claim C6 as stated fails for a file whose name has a line feed in it: the second
  \<^verbatim>\<open>add\<close> of the same path is not rejected and writes the path to the index again.
\<close>

theorem stage_idempotent_counterexample:
  "handleAdd [name_with_nl] fs_name_with_nl = Ret (IsTracked name_with_nl) fs_staged_nl \<and>
   handleAdd [name_with_nl] fs_staged_nl = Ret (IsTracked name_with_nl) fs_staged_nl_twice \<and>
   ReadFile fs_staged_nl indexFilePath = Inr (name_with_nl @ [nl]) \<and>
   ReadFile fs_staged_nl_twice indexFilePath = Inr (name_with_nl @ [nl] @ name_with_nl @ [nl])"
  by code_simp

subsection \<open>What a checkout leaves alone\<close>

text \<open>
  Claim C8. Whatever \<open>switchCommit\<close> does, and also when it ends the process half way,
  a path keeps its node and its content unless it is the path \<^verbatim>\<open>./<name>\<close> of an entry
  \<open>name\<close> of the commit directory; nothing is removed. The path \<^verbatim>\<open>./<name>\<close> of the name of
  a directory entry is the file \<open>name\<close> of the working directory.
\<close>

theorem checkout_frame:
  assumes "\<forall>names. ReadDir fs (Join [commitDir, ident]) = Inr names \<longrightarrow>
             k \<notin> (\<lambda>name. resolve (Join [''.'', name])) ` set names"
  shows "at (state_of (switchCommit ident fs)) k = at fs k \<and>
         (\<forall>name. proper_name name \<longrightarrow> resolve (Join [''.'', name]) = [name])"
proof
  show "at (state_of (switchCommit ident fs)) k = at fs k"
  proof (cases "ReadDir fs (Join [commitDir, ident])")
    case (Inl e)
    then show ?thesis
      by (simp add: switchCommit_state split: res.splits option.splits)
  next
    case (Inr names)
    then have "k \<notin> (\<lambda>name. resolve (Join [''.'', name])) ` set names"
      using assms by blast
    then have "at (state_of (restoreFiles (Join [commitDir, ident]) names fs)) k = at fs k"
      by (rule restoreFiles_frame)
    then show ?thesis
      using Inr by (simp add: switchCommit_state split: res.splits option.splits)
  qed
  show "\<forall>name. proper_name name \<longrightarrow> resolve (Join [''.'', name]) = [name]"
  proof (intro allI impI)
    fix name
    assume "proper_name name"
    then show "resolve (Join [''.'', name]) = [name]"
      by (rule resolve_Join_dot)
  qed
qed

text \<open>The theorem for \<^verbatim>\<open>b.txt\<close>, which the commit \<^verbatim>\<open>abc\<close> does not hold.\<close>

theorem checkout_frame_witness:
  "at (state_of (switchCommit ''abc'' fs_edited)) [''b.txt''] = Some (File ''other'')"
proof -
  have d: "ReadDir fs_edited (Join [commitDir, ''abc'']) = Inr [''a.txt'']"
    by code_simp
  have r: "resolve (Join [''.'', ''a.txt'']) = [''a.txt'']"
    by code_simp
  have h: "\<forall>names. ReadDir fs_edited (Join [commitDir, ''abc'']) = Inr names \<longrightarrow>
             [''b.txt''] \<notin> (\<lambda>name. resolve (Join [''.'', name])) ` set names"
    by (simp add: d r)
  have b: "at fs_edited [''b.txt''] = Some (File ''other'')"
    by code_simp
  show ?thesis
    using checkout_frame [OF h] b by simp
qed

subsection \<open>What a checkout restores\<close>






subsection \<open>The change detector\<close>

text \<open>
  Claim C4, as amended. With no last commit \<open>compareWithLastCommit\<close> returns true.
  With a last commit it ends the process when the index cannot be read; otherwise it
  goes through the staged paths in the order of the index up to the first one that is
  changed or cannot be compared: it returns false when there is none, true when that
  path is changed, and ends the process when that path cannot be compared. So,
  whenever it returns, it returns true exactly when some staged path is changed; it
  returns false only when every staged path can be compared and has the digest of
  its counterpart, and the path is then identical to its counterpart unless the two
  contents are a collision of the digest function. It returns the answer when every
  staged path can be compared, and it returns false when every staged path is
  identical to its counterpart.
\<close>

theorem change_detector:
  assumes "getLastCommitID fs = (lastCommitID, fs1)"
  shows "(lastCommitID = [] \<longrightarrow> compareWithLastCommit H fs = Ret True fs1) \<and>
         (lastCommitID \<noteq> [] \<longrightarrow>
            (isl (ReadFile fs1 indexFilePath) \<longrightarrow> compareWithLastCommit H fs = Fatal fs1) \<and>
            (\<forall>idx. ReadFile fs1 indexFilePath = Inr idx \<longrightarrow>
               compareWithLastCommit H fs =
                 (case find (\<lambda>p. incomparable fs1 lastCommitID p \<or> changed H fs1 lastCommitID p)
                         (staged idx) of
                    None \<Rightarrow> Ret False fs1
                  | Some p \<Rightarrow> if incomparable fs1 lastCommitID p then Fatal fs1 else Ret True fs1)) \<and>
            (\<forall>b fs'. compareWithLastCommit H fs = Ret b fs' \<longrightarrow>
               fs' = fs1 \<and>
               (\<exists>idx. ReadFile fs1 indexFilePath = Inr idx \<and>
                  b = (\<exists>p \<in> set (staged idx). changed H fs1 lastCommitID p) \<and>
                  (\<not> b \<longrightarrow>
                     (\<forall>p \<in> set (staged idx).
                        \<not> incomparable fs1 lastCommitID p \<and> sameDigest H fs1 lastCommitID p \<and>
                        (identical fs1 lastCommitID p \<or>
                         (\<exists>stored current.
                            ReadFile fs1 (lastCommitFile p lastCommitID) = Inr stored \<and>
                            ReadFile fs1 p = Inr current \<and>
                            stored \<noteq> current \<and> H stored = H current)))))) \<and>
            (\<forall>idx. ReadFile fs1 indexFilePath = Inr idx \<and>
                  (\<forall>p \<in> set (staged idx). \<not> incomparable fs1 lastCommitID p) \<longrightarrow>
               compareWithLastCommit H fs
                 = Ret (\<exists>p \<in> set (staged idx). changed H fs1 lastCommitID p) fs1) \<and>
            (\<forall>idx. ReadFile fs1 indexFilePath = Inr idx \<and>
                  (\<forall>p \<in> set (staged idx). identical fs1 lastCommitID p) \<longrightarrow>
               compareWithLastCommit H fs = Ret False fs1))"
proof (intro conjI impI allI)
  assume "lastCommitID = []"
  then show "compareWithLastCommit H fs = Ret True fs1"
    using assms by (simp add: compareWithLastCommit_def)
next
  assume "lastCommitID \<noteq> []" and "isl (ReadFile fs1 indexFilePath)"
  then show "compareWithLastCommit H fs = Fatal fs1"
    using assms by (auto simp: compareWithLastCommit_def split: sum.splits)
next
  fix idx
  assume "lastCommitID \<noteq> []" and "ReadFile fs1 indexFilePath = Inr idx"
  then show "compareWithLastCommit H fs =
                 (case find (\<lambda>p. incomparable fs1 lastCommitID p \<or> changed H fs1 lastCommitID p)
                         (staged idx) of
                    None \<Rightarrow> Ret False fs1
                  | Some p \<Rightarrow> if incomparable fs1 lastCommitID p then Fatal fs1 else Ret True fs1)"
    using assms by (simp add: compareWithLastCommit_def hasChanges_find staged_def)
next
  fix b fs'
  assume l: "lastCommitID \<noteq> []" and r: "compareWithLastCommit H fs = Ret b fs'"
  from r l assms obtain idx where idx: "ReadFile fs1 indexFilePath = Inr idx"
    and h: "hasChanges H (Split idx [nl]) lastCommitID fs1 = Ret b fs'"
    by (auto simp: compareWithLastCommit_def split: sum.splits)
  show "fs' = fs1"
    using h hasChanges_True [of H _ lastCommitID fs1 fs'] hasChanges_False_iff [of H _ lastCommitID fs1 fs']
    by (cases b) auto
  have b: "b = (\<exists>p \<in> set (staged idx). changed H fs1 lastCommitID p)"
    using h hasChanges_True [of H "Split idx [nl]" lastCommitID fs1 fs']
      hasChanges_False_iff [of H "Split idx [nl]" lastCommitID fs1 fs']
    by (cases b) (auto simp: staged_def)
  have c: "\<forall>p \<in> set (staged idx). \<not> incomparable fs1 lastCommitID p" if "\<not> b"
    using that h hasChanges_False_iff [of H "Split idx [nl]" lastCommitID fs1 fs']
    by (auto simp: staged_def)
  have i: "\<forall>p \<in> set (staged idx).
             \<not> incomparable fs1 lastCommitID p \<and> sameDigest H fs1 lastCommitID p \<and>
             (identical fs1 lastCommitID p \<or>
              (\<exists>stored current.
                 ReadFile fs1 (lastCommitFile p lastCommitID) = Inr stored \<and>
                 ReadFile fs1 p = Inr current \<and>
                 stored \<noteq> current \<and> H stored = H current))"
    if nb: "\<not> b"
  proof
    fix p
    assume p: "p \<in> set (staged idx)"
    have n1: "\<not> incomparable fs1 lastCommitID p"
      using c nb p by blast
    have n2: "\<not> changed H fs1 lastCommitID p"
      using b nb p by blast
    show "\<not> incomparable fs1 lastCommitID p \<and> sameDigest H fs1 lastCommitID p \<and>
             (identical fs1 lastCommitID p \<or>
              (\<exists>stored current.
                 ReadFile fs1 (lastCommitFile p lastCommitID) = Inr stored \<and>
                 ReadFile fs1 p = Inr current \<and>
                 stored \<noteq> current \<and> H stored = H current))"
      using n1 not_changed_sameDigest [OF n1 n2] by blast
  qed
  show "\<exists>idx. ReadFile fs1 indexFilePath = Inr idx \<and>
          b = (\<exists>p \<in> set (staged idx). changed H fs1 lastCommitID p) \<and>
          (\<not> b \<longrightarrow>
             (\<forall>p \<in> set (staged idx).
                \<not> incomparable fs1 lastCommitID p \<and> sameDigest H fs1 lastCommitID p \<and>
                (identical fs1 lastCommitID p \<or>
                 (\<exists>stored current.
                    ReadFile fs1 (lastCommitFile p lastCommitID) = Inr stored \<and>
                    ReadFile fs1 p = Inr current \<and>
                    stored \<noteq> current \<and> H stored = H current))))"
    using idx b i by blast
next

  fix idx
  assume l: "lastCommitID \<noteq> []"
    and a: "ReadFile fs1 indexFilePath = Inr idx \<and>
            (\<forall>p \<in> set (staged idx). \<not> incomparable fs1 lastCommitID p)"
  then have "\<forall>p \<in> set (Split idx [nl]). p \<noteq> [] \<longrightarrow> \<not> incomparable fs1 lastCommitID p"
    by (simp add: staged_def)
  then have "hasChanges H (Split idx [nl]) lastCommitID fs1
               = Ret (\<exists>p \<in> set (Split idx [nl]). p \<noteq> [] \<and> changed H fs1 lastCommitID p) fs1"
    by (rule hasChanges_comparable)
  moreover have "(\<exists>p \<in> set (Split idx [nl]). p \<noteq> [] \<and> changed H fs1 lastCommitID p)
                   = (\<exists>p \<in> set (staged idx). changed H fs1 lastCommitID p)"
    by (auto simp: staged_def)
  ultimately show "compareWithLastCommit H fs
                     = Ret (\<exists>p \<in> set (staged idx). changed H fs1 lastCommitID p) fs1"
    using assms l a by (simp add: compareWithLastCommit_def)
next
  fix idx
  assume l: "lastCommitID \<noteq> []"
    and a: "ReadFile fs1 indexFilePath = Inr idx \<and>
            (\<forall>p \<in> set (staged idx). identical fs1 lastCommitID p)"
  then have "\<forall>p \<in> set (Split idx [nl]). p \<noteq> [] \<longrightarrow>
               \<not> incomparable fs1 lastCommitID p \<and> \<not> changed H fs1 lastCommitID p"
    using identical_not_changed by (simp add: staged_def)
  then have "hasChanges H (Split idx [nl]) lastCommitID fs1 = Ret False fs1"
    by (simp add: hasChanges_False_iff)
  then show "compareWithLastCommit H fs = Ret False fs1"
    using assms l a by (simp add: compareWithLastCommit_def)
qed

text \<open>
  The theorem for a working tree that is as the last commit left it, and for one
  where the new file \<^verbatim>\<open>b.txt\<close> is staged in front of \<^verbatim>\<open>a.txt\<close>, which was committed and
  has been removed since: the detector returns at \<^verbatim>\<open>b.txt\<close>.
\<close>

theorem change_detector_witness:
  "compareWithLastCommit toy_digest fs_unchanged = Ret False fs_unchanged \<and>
   compareWithLastCommit toy_digest fs_removed_later = Ret True fs_removed_later"
proof -
  have h: "getLastCommitID fs_unchanged = (''abc'', fs_unchanged)"
    by code_simp
  have n: "''abc'' \<noteq> []"
    by simp
  have r: "ReadFile fs_unchanged indexFilePath = Inr (''a.txt'' @ [nl])"
    by code_simp
  have s: "staged (''a.txt'' @ [nl]) = [''a.txt'']"
    by code_simp
  have i: "identical fs_unchanged ''abc'' ''a.txt''"
    by code_simp
  have p: "ReadFile fs_unchanged indexFilePath = Inr (''a.txt'' @ [nl]) \<and>
           (\<forall>p \<in> set (staged (''a.txt'' @ [nl])). identical fs_unchanged ''abc'' p)"
    unfolding s using r i by simp
  have a: "compareWithLastCommit toy_digest fs_unchanged = Ret False fs_unchanged"
    by (rule change_detector [OF h, of toy_digest, THEN conjunct2, THEN mp, OF n,
          THEN conjunct2, THEN conjunct2, THEN conjunct2, THEN conjunct2, THEN spec, THEN mp, OF p])
  have h': "getLastCommitID fs_removed_later = (''abc'', fs_removed_later)"
    by code_simp
  have r': "ReadFile fs_removed_later indexFilePath = Inr (''b.txt'' @ [nl] @ ''a.txt'' @ [nl])"
    by code_simp
  have e: "compareWithLastCommit toy_digest fs_removed_later =
             (case find (\<lambda>p. incomparable fs_removed_later ''abc'' p \<or> changed toy_digest fs_removed_later ''abc'' p)
                     (staged (''b.txt'' @ [nl] @ ''a.txt'' @ [nl])) of
                None \<Rightarrow> Ret False fs_removed_later
              | Some p \<Rightarrow> if incomparable fs_removed_later ''abc'' p then Fatal fs_removed_later
                          else Ret True fs_removed_later)"
    by (rule change_detector [OF h', of toy_digest, THEN conjunct2, THEN mp, OF n,
          THEN conjunct2, THEN conjunct1, THEN spec, THEN mp, OF r'])
  have b: "compareWithLastCommit toy_digest fs_removed_later = Ret True fs_removed_later"
    unfolding e by code_simp
  show ?thesis
    using a b by (rule conjI)
qed

text \<open>
  Claim C4 as stated fails: \<^verbatim>\<open>b.txt\<close> is staged and has no counterpart in the last
  commit, so a staged path is changed, but the detector does not return true: it ends
  the process at \<^verbatim>\<open>a.txt\<close>, which was committed and has been removed since.
\<close>

theorem change_detector_counterexample:
  "getLastCommitID fs_removed = (''abc'', fs_removed) \<and>
   ReadFile fs_removed indexFilePath = Inr (''a.txt'' @ [nl] @ ''b.txt'' @ [nl]) \<and>
   staged (''a.txt'' @ [nl] @ ''b.txt'' @ [nl]) = [''a.txt'', ''b.txt''] \<and>
   Stat fs_removed (lastCommitFile ''b.txt'' ''abc'') = Inl ENOENT \<and>
   changed toy_digest fs_removed ''abc'' ''b.txt'' \<and>
   compareWithLastCommit toy_digest fs_removed = Fatal fs_removed"
  by code_simp

subsection \<open>What a commit copies\<close>

text \<open>
  What a successful \<open>handleCommit\<close> has copied. The commit directory is
  \<^verbatim>\<open>vcs/commits/<identifier>\<close>, and the destination of a staged path is that path below
  the commit directory, without the prefix \<^verbatim>\<open>vcs/\<close> if it has one: the same relative
  path for every path that does not begin with \<^verbatim>\<open>vcs/\<close>. Provided that no staged path is
  itself a destination, that different staged paths have different destinations and
  that the log is not a destination, the place of every staged path held a file when
  the commit began, and its destination holds the same bytes when the commit is done.
\<close>

theorem commit_copies_staged:
  assumes "handleCommit H now args fs = Ret ChangesAreCommitted fs'"
  shows "\<exists>idx snap. ReadFile fs indexFilePath = Inr idx \<and>
           snap = commitDir @ ''/'' @ hashContent H (idx @ Sprintf_d now) \<and>
           ((\<forall>p \<in> set (staged idx). \<forall>q \<in> set (staged idx).
                resolve p \<noteq> resolve (destination snap q) \<and>
                (resolve (destination snap p) = resolve (destination snap q) \<longrightarrow> p = q) \<and>
                resolve (destination snap p) \<noteq> resolve logFilePath) \<longrightarrow>
            (\<forall>p \<in> set (staged idx). \<exists>c.
                at fs (resolve p) = Some (File c) \<and>
                at fs' (resolve (destination snap p)) = Some (File c))) \<and>
           (\<forall>p. \<not> prefix ''vcs/'' p \<longrightarrow> destination snap p = Join [snap, p]) \<and>
           (\<forall>p. destination snap (''vcs/'' @ p) = Join [snap, p])"
proof -
  from handleCommit_committed [OF assms] obtain fs3 fs4 idx c where
    d: "dirs_added fs fs3" and i: "ReadFile fs indexFilePath = Inr idx"
    and h: "HashID c = hashContent H (idx @ Sprintf_d now)"
    and ce: "copyEach (commitDir @ ''/'' @ HashID c) (Split idx [nl]) fs3 = Ret () fs4"
    and cl: "createLog c fs4 = Ret () fs'"
    by blast
  define snap where "snap = commitDir @ ''/'' @ hashContent H (idx @ Sprintf_d now)"
  have ce': "copyEach snap (Split idx [nl]) fs3 = Ret () fs4"
    using ce h by (simp add: snap_def)
  have content: "\<forall>p \<in> set (staged idx). \<exists>c.
                   at fs (resolve p) = Some (File c) \<and>
                   at fs' (resolve (destination snap p)) = Some (File c)"
    if sep: "\<forall>p \<in> set (staged idx). \<forall>q \<in> set (staged idx).
                resolve p \<noteq> resolve (destination snap q) \<and>
                (resolve (destination snap p) = resolve (destination snap q) \<longrightarrow> p = q) \<and>
                resolve (destination snap p) \<noteq> resolve logFilePath"
  proof
    fix p
    assume p: "p \<in> set (staged idx)"
    have sep': "\<forall>p \<in> set (Split idx [nl]). \<forall>q \<in> set (Split idx [nl]). p \<noteq> [] \<and> q \<noteq> [] \<longrightarrow>
           resolve p \<noteq> resolve (destination snap q) \<and>
           (resolve (destination snap p) = resolve (destination snap q) \<longrightarrow> p = q)"
      using sep by (simp add: staged_def)
    have pl: "p \<in> set (Split idx [nl])" and pn: "p \<noteq> []"
      using p by (simp_all add: staged_def)
    from copyEach_content [OF ce' sep'] pl pn obtain c where
      a3: "at fs3 (resolve p) = Some (File c)"
      and a4: "at fs4 (resolve (destination snap p)) = Some (File c)"
      by blast
    have "resolve (destination snap p) \<noteq> resolve logFilePath"
      using sep p by blast
    then have "at fs' (resolve (destination snap p)) = Some (File c)"
      using createLog_frame [OF cl] a4 by simp
    moreover have "at fs (resolve p) = Some (File c)"
      using dirs_added_File [OF d a3] .
    ultimately show "\<exists>c. at fs (resolve p) = Some (File c) \<and>
                         at fs' (resolve (destination snap p)) = Some (File c)"
      by simp
  qed
  have plain: "\<forall>p. \<not> prefix ''vcs/'' p \<longrightarrow> destination snap p = Join [snap, p]"
    by (simp add: destination_def TrimPrefix_def)
  have stripped: "\<forall>p. destination snap (''vcs/'' @ p) = Join [snap, p]"
    by (simp add: destination_def TrimPrefix_def)
  show ?thesis
    using i snap_def content plain stripped by blast
qed

text \<open>The first commit of \<^verbatim>\<open>a.txt\<close> stores the file under its name.\<close>

theorem commit_copies_staged_example:
  "at fs_staged_a [''a.txt''] = Some (File ''hello'') \<and>
   at fs_committed_a
     [''vcs'', ''commits'', hashContent toy_digest (''a.txt'' @ [nl] @ Sprintf_d 42), ''a.txt'']
     = Some (File ''hello'')"
proof -
  have h: "handleCommit toy_digest 42 [''first''] fs_staged_a = Ret ChangesAreCommitted fs_committed_a"
    by code_simp
  have r: "ReadFile fs_staged_a indexFilePath = Inr (''a.txt'' @ [nl])"
    by code_simp
  have s: "staged (''a.txt'' @ [nl]) = [''a.txt'']"
    by code_simp
  have a: "at fs_staged_a [''a.txt''] = Some (File ''hello'')"
    by code_simp
  define snap where "snap = commitDir @ ''/'' @ hashContent toy_digest ((''a.txt'' @ [nl]) @ Sprintf_d 42)"
  have ra: "resolve ''a.txt'' = [''a.txt'']"
    by code_simp
  have rd: "resolve (destination snap ''a.txt'')
              = [''vcs'', ''commits'', hashContent toy_digest (''a.txt'' @ [nl] @ Sprintf_d 42), ''a.txt'']"
    unfolding snap_def by code_simp
  have sep: "resolve ''a.txt'' \<noteq> resolve (destination snap ''a.txt'') \<and>
             resolve (destination snap ''a.txt'') \<noteq> resolve logFilePath"
    unfolding snap_def by code_simp
  from commit_copies_staged [OF h] r have
    "(\<forall>p \<in> set (staged (''a.txt'' @ [nl])). \<forall>q \<in> set (staged (''a.txt'' @ [nl])).
                resolve p \<noteq> resolve (destination snap q) \<and>
                (resolve (destination snap p) = resolve (destination snap q) \<longrightarrow> p = q) \<and>
                resolve (destination snap p) \<noteq> resolve logFilePath) \<longrightarrow>
            (\<forall>p \<in> set (staged (''a.txt'' @ [nl])). \<exists>c.
                at fs_staged_a (resolve p) = Some (File c) \<and>
                at fs_committed_a (resolve (destination snap p)) = Some (File c))"
    unfolding snap_def by auto
  then have "\<exists>c. at fs_staged_a (resolve ''a.txt'') = Some (File c) \<and>
                 at fs_committed_a (resolve (destination snap ''a.txt'')) = Some (File c)"
    unfolding s using sep by simp
  then have "\<exists>c. at fs_staged_a [''a.txt''] = Some (File c) \<and>
                 at fs_committed_a
                   [''vcs'', ''commits'', hashContent toy_digest (''a.txt'' @ [nl] @ Sprintf_d 42), ''a.txt'']
                   = Some (File c)"
    by (simp only: ra rd)
  then show ?thesis
    using a by auto
qed

text \<open>
  Claim C2 is not what the code does. A commit of the staged path \<^verbatim>\<open>vcs/config.txt\<close>
  succeeds, and the commit directory holds the copy as \<^verbatim>\<open>config.txt\<close>, with nothing at
  the relative path \<^verbatim>\<open>vcs/config.txt\<close>, where \<open>fileHasChanges\<close> looks for it: the next
  run of the change detector finds the path changed though no byte has changed. A
  commit of the staged path \<^verbatim>\<open>sub/b.txt\<close> ends the process in \<open>copyFile\<close>, the directory
  \<^verbatim>\<open>sub\<close> not being made in the commit directory: the commit directory is there, the
  file is not, and the log has no entry.
\<close>

theorem commit_layout_evaluation:
  "ReadFile fs_staged_config indexFilePath = Inr (''vcs/config.txt'' @ [nl]) \<and>
   handleCommit toy_digest 42 [''first''] fs_staged_config = Ret ChangesAreCommitted fs_committed_config \<and>
   ReadFile fs_committed_config
     (Join [commitDir @ ''/'' @ hashContent toy_digest (''vcs/config.txt'' @ [nl] @ Sprintf_d 42),
            ''vcs/config.txt'']) = Inl ENOENT \<and>
   ReadFile fs_committed_config
     (Join [commitDir @ ''/'' @ hashContent toy_digest (''vcs/config.txt'' @ [nl] @ Sprintf_d 42),
            ''config.txt'']) = Inr ''al'' \<and>
   compareWithLastCommit toy_digest fs_committed_config = Ret True fs_committed_config \<and>
   ReadFile fs_staged_sub indexFilePath = Inr (''sub/b.txt'' @ [nl]) \<and>
   handleCommit toy_digest 42 [''first''] fs_staged_sub = Fatal fs_committed_sub \<and>
   Stat fs_committed_sub (commitDir @ ''/'' @ hashContent toy_digest (''sub/b.txt'' @ [nl] @ Sprintf_d 42))
     = Inr Dir \<and>
   ReadFile fs_committed_sub
     (Join [commitDir @ ''/'' @ hashContent toy_digest (''sub/b.txt'' @ [nl] @ Sprintf_d 42),
            ''sub/b.txt'']) = Inl ENOENT \<and>
   ReadFile fs_committed_sub logFilePath = Inl ENOENT"
  by code_simp

end
